theory Spec2Isabelle
  imports Main "HOL-Library.Sublist"
begin

section \<open>The Mattermost client: data model\<close>

text \<open>
  The embedding follows the class \<open>MattermostClient\<close>. Every method of the class is an
  \<open>async\<close> function whose only effect is a call of \<open>fetch\<close>; a rejected promise (a
  \<open>throw\<close>) is the left summand of the result, and the network is an explicit state
  that records every request issued. The \<open>console.error\<close> calls of \<open>getChannels\<close>
  write to the process's log only and are left out.

  \<^item> Numbers are integers: \<open>nat\<close> for the page index and the per-page size, which the
    aggregation counts up from \<open>0\<close> and fixes at \<open>200\<close>, \<open>int\<close> for the \<open>since\<close> timestamp and
    for \<open>maxPosts\<close>, and \<open>Infinity\<close> as a value of its own.
  \<^item> The value that \<open>response.json()\<close> resolves to has the type that the method casts it
    to: a \<open>PostsResponse\<close> for the posts endpoint; for the channels and users endpoints,
    whose payload the methods inspect with \<open>Array.isArray\<close>, any JSON value.
  \<^item> The loop of \<open>getAllPostsForChannel\<close> runs as long as the upstream keeps serving full
    pages, so it is a partial function: \<open>None\<close> is a run that never returns.
\<close>

text \<open>A decoded JSON value, the result of \<open>response.json()\<close> before any cast.\<close>

datatype json =
    JNull
  | JBool bool
  | JNum int
  | JStr string
  | JArr "json list"
  | JObj "(string \<times> json) list"

text \<open>A JavaScript \<open>Error\<close> with its message.\<close>

datatype error = Error string

text \<open>
  A JavaScript number used as a cap: an integer or \<open>Infinity\<close>. Fractions and \<open>NaN\<close> are
  outside the model.
\<close>

datatype number = Finite int | Infinity

text \<open>
  A \<open>URL\<close> object: the address it was made from and the pairs appended to its
  \<open>searchParams\<close>, in order. \<open>url.toString()\<close> is taken to serialise both faithfully, so
  a request is identified by this record.
\<close>

record url =
  href :: string
  searchParams :: "(string \<times> string) list"

record request =
  target :: url
  reqHeaders :: "(string \<times> string) list"

text \<open>
  The response of \<open>fetch\<close>: \<open>bodyText\<close> is what \<open>response.text()\<close> resolves to and \<open>json\<close>
  what \<open>response.json()\<close> resolves to (or the error it rejects with). The payload type
  \<open>'a\<close> is the type the caller casts the decoded value to.
\<close>

record 'a response =
  status :: nat
  statusText :: string
  bodyText :: string
  json :: "error + 'a"

text \<open>
  The network: \<open>respond\<close> is the upstream server (a rejected \<open>fetch\<close> is \<open>Inl\<close>), \<open>sent\<close>
  the requests issued so far, oldest first.
\<close>

record 'a network =
  respond :: "request \<Rightarrow> error + 'a response"
  sent :: "request list"

record client =
  baseUrl :: string
  headers :: "(string \<times> string) list"
  teamId :: string

text \<open>\<open>PostsResponse\<close> of \<open>types.ts\<close>; the type \<open>Post\<close> is the parameter \<open>'p\<close>.\<close>

record 'p PostsResponse =
  order :: "string list"
  posts :: "string \<rightharpoonup> 'p"
  next_post_id :: string
  prev_post_id :: string

text \<open>The optional filters of \<open>getPostsForChannel\<close>, and those of
  \<open>getAllPostsForChannel\<close>, which add \<open>maxPosts\<close>.\<close>

record filters =
  since :: "int option"
  before :: "string option"
  after :: "string option"

record all_options = filters +
  maxPosts :: "int option"

section \<open>Library functions of the platform\<close>

text \<open>\<open>Number.prototype.toString\<close> on integers: decimal digits, a minus sign when negative.\<close>

definition digit :: "nat \<Rightarrow> char" where
  "digit d = ''0123456789'' ! d"

function showNat :: "nat \<Rightarrow> string" where
  "showNat n = (if n < 10 then [digit n] else showNat (n div 10) @ [digit (n mod 10)])"
  by pat_completeness auto
termination
  by (relation "measure (\<lambda>n. n)") auto

declare showNat.simps [simp del]

definition toString :: "int \<Rightarrow> string" where
  "toString i = (if i < 0 then ''-'' @ showNat (nat (- i)) else showNat (nat i))"

text \<open>\<open>response.ok\<close> of node-fetch: the status is in the range 200 to 299.\<close>

definition ok :: "'a response \<Rightarrow> bool" where
  "ok r = (200 \<le> status r \<and> status r < 300)"

text \<open>\<open>new URL(s)\<close> and \<open>url.searchParams.append(k, v)\<close>.\<close>

definition newURL :: "string \<Rightarrow> url" where
  "newURL s = \<lparr>href = s, searchParams = []\<rparr>"

definition appendParam :: "url \<Rightarrow> string \<Rightarrow> string \<Rightarrow> url" where
  "appendParam u k v = u\<lparr>searchParams := searchParams u @ [(k, v)]\<rparr>"

text \<open>\<open>fetch(url, { headers })\<close>: the server answers and the request is recorded.\<close>

definition fetch :: "'a network \<Rightarrow> request \<Rightarrow> (error + 'a response) \<times> 'a network" where
  "fetch net rq = (respond net rq, net\<lparr>sent := sent net @ [rq]\<rparr>)"

text \<open>\<open>Array.isArray\<close>.\<close>

fun isArray :: "json \<Rightarrow> bool" where
  "isArray (JArr xs) = True"
| "isArray v = False"

text \<open>Reading a property of a decoded object; \<open>None\<close> is \<open>undefined\<close>.\<close>

fun field :: "string \<Rightarrow> json \<Rightarrow> json option" where
  "field k (JObj kvs) = map_of kvs k"
| "field k v = None"

text \<open>Truthiness of an optional number and of an optional string: \<open>undefined\<close>, \<open>0\<close> and
  the empty string are falsy.\<close>

fun truthyNum :: "int option \<Rightarrow> bool" where
  "truthyNum None = False"
| "truthyNum (Some n) = (n \<noteq> 0)"

fun truthyStr :: "string option \<Rightarrow> bool" where
  "truthyStr None = False"
| "truthyStr (Some s) = (s \<noteq> [])"

text \<open>\<open>n < m\<close> for a length \<open>n\<close> and a cap \<open>m\<close>, and \<open>xs.slice(0, m)\<close>: a negative end
  counts from the end of the array.\<close>

fun lessNum :: "nat \<Rightarrow> number \<Rightarrow> bool" where
  "lessNum n (Finite m) = (int n < m)"
| "lessNum n Infinity = True"

fun slice0 :: "'a list \<Rightarrow> number \<Rightarrow> 'a list" where
  "slice0 xs (Finite m) =
     (if m < 0 then take (nat (int (length xs) + m)) xs else take (nat m) xs)"
| "slice0 xs Infinity = xs"

section \<open>Channels and users\<close>

text \<open>Lines 56 to 64 of \<open>getChannels\<close>: a bare array is wrapped, anything else is
  returned as it is.\<close>

definition normalizeChannels :: "json \<Rightarrow> json" where
  "normalizeChannels channelsArray =
     (if isArray channelsArray
      then (case channelsArray of
              JArr xs \<Rightarrow> JObj [(''channels'', channelsArray),
                                (''total_count'', JNum (int (length xs)))]
            | _ \<Rightarrow> channelsArray)
      else channelsArray)"

definition channelsUrl :: "client \<Rightarrow> nat \<Rightarrow> nat \<Rightarrow> url" where
  "channelsUrl c limit page =
     (let url = newURL (baseUrl c @ ''/teams/'' @ teamId c @ ''/channels'');
          url = appendParam url ''page'' (toString (int page));
          url = appendParam url ''per_page'' (toString (int limit))
      in url)"

definition getChannels ::
  "client \<Rightarrow> json network \<Rightarrow> nat \<Rightarrow> nat \<Rightarrow> (error + json) \<times> json network" where
  "getChannels c net limit page =
     (case fetch net \<lparr>target = channelsUrl c limit page, reqHeaders = headers c\<rparr> of
        (Inl e, net') \<Rightarrow> (Inl e, net')
      | (Inr response, net') \<Rightarrow>
          if \<not> ok response
          then (let errorText = bodyText response
                in (Inl (Error (''Failed to get channels: '' @ toString (int (status response))
                          @ '' '' @ statusText response @ '' - '' @ errorText)), net'))
          else (case json response of
                  Inl e \<Rightarrow> (Inl e, net')
                | Inr channelsArray \<Rightarrow> (Inr (normalizeChannels channelsArray), net')))"

text \<open>Lines 246 to 253 of \<open>getUsers\<close>.\<close>

definition normalizeUsers :: "json \<Rightarrow> json" where
  "normalizeUsers usersArray =
     (if isArray usersArray
      then (case usersArray of
              JArr xs \<Rightarrow> JObj [(''users'', usersArray),
                                (''total_count'', JNum (int (length xs)))]
            | _ \<Rightarrow> usersArray)
      else usersArray)"

definition usersUrl :: "client \<Rightarrow> nat \<Rightarrow> nat \<Rightarrow> url" where
  "usersUrl c limit page =
     (let url = newURL (baseUrl c @ ''/users'');
          url = appendParam url ''page'' (toString (int page));
          url = appendParam url ''per_page'' (toString (int limit))
      in url)"

definition getUsers ::
  "client \<Rightarrow> json network \<Rightarrow> nat \<Rightarrow> nat \<Rightarrow> (error + json) \<times> json network" where
  "getUsers c net limit page =
     (case fetch net \<lparr>target = usersUrl c limit page, reqHeaders = headers c\<rparr> of
        (Inl e, net') \<Rightarrow> (Inl e, net')
      | (Inr response, net') \<Rightarrow>
          if \<not> ok response
          then (Inl (Error (''Failed to get users: '' @ toString (int (status response))
                      @ '' '' @ statusText response)), net')
          else (case json response of
                  Inl e \<Rightarrow> (Inl e, net')
                | Inr usersArray \<Rightarrow> (Inr (normalizeUsers usersArray), net')))"

section \<open>Posts: one page\<close>

definition postsUrl :: "client \<Rightarrow> string \<Rightarrow> nat \<Rightarrow> nat \<Rightarrow> filters option \<Rightarrow> url" where
  "postsUrl c channelId limit page options =
     (let url = newURL (baseUrl c @ ''/channels/'' @ channelId @ ''/posts'');
          url = appendParam url ''page'' (toString (int page));
          url = appendParam url ''per_page'' (toString (int limit));
          url = (if truthyNum (Option.bind options since)
                 then appendParam url ''since'' (toString (the (Option.bind options since)))
                 else url);
          url = (if truthyStr (Option.bind options before)
                 then appendParam url ''before'' (the (Option.bind options before))
                 else url);
          url = (if truthyStr (Option.bind options after)
                 then appendParam url ''after'' (the (Option.bind options after))
                 else url)
      in url)"

definition getPostsForChannel ::
  "client \<Rightarrow> 'a network \<Rightarrow> string \<Rightarrow> nat \<Rightarrow> nat \<Rightarrow> filters option
     \<Rightarrow> (error + 'a) \<times> 'a network" where
  "getPostsForChannel c net channelId limit page options =
     (case fetch net \<lparr>target = postsUrl c channelId limit page options,
                      reqHeaders = headers c\<rparr> of
        (Inl e, net') \<Rightarrow> (Inl e, net')
      | (Inr response, net') \<Rightarrow>
          if \<not> ok response
          then (Inl (Error (''Failed to get posts: '' @ toString (int (status response))
                      @ '' '' @ statusText response)), net')
          else (json response, net'))"

section \<open>Posts: auto-pagination\<close>

text \<open>The variables of the loop of \<open>getAllPostsForChannel\<close>.\<close>

record 'p loop_state =
  allPosts :: "string \<rightharpoonup> 'p"
  allOrder :: "string list"
  page :: nat
  hasMore :: bool

text \<open>How one run of the loop body ends: at its end, by \<open>break\<close>, or by a thrown error.\<close>

datatype 'p body_result = Next "'p loop_state" | Break "'p loop_state" | Throw error

definition perPage :: nat where
  "perPage = 200"

text \<open>\<open>options?.maxPosts || Infinity\<close>.\<close>

definition capOf :: "all_options option \<Rightarrow> number" where
  "capOf options =
     (if truthyNum (Option.bind options maxPosts)
      then Finite (the (Option.bind options maxPosts))
      else Infinity)"

text \<open>The object literal passed to \<open>getPostsForChannel\<close> on every iteration.\<close>

definition forwarded :: "all_options option \<Rightarrow> filters option" where
  "forwarded options =
     Some \<lparr>since = Option.bind options since,
           before = Option.bind options before,
           after = Option.bind options after\<rparr>"

text \<open>Lines 155 to 177: the body of the loop.\<close>

definition loopBody ::
  "client \<Rightarrow> string \<Rightarrow> all_options option \<Rightarrow> 'p PostsResponse network \<Rightarrow> 'p loop_state
     \<Rightarrow> 'p body_result \<times> 'p PostsResponse network" where
  "loopBody c channelId options net st =
     (case getPostsForChannel c net channelId perPage (page st) (forwarded options) of
        (Inl e, net') \<Rightarrow> (Throw e, net')
      | (Inr response, net') \<Rightarrow>
          if length (order response) = 0
          then (Break (st\<lparr>hasMore := False\<rparr>), net')
          else (let st = st\<lparr>allPosts := allPosts st ++ posts response\<rparr>;
                    st = st\<lparr>allOrder := allOrder st @ order response\<rparr>;
                    st = st\<lparr>hasMore := (length (order response) = perPage)\<rparr>;
                    st = st\<lparr>page := page st + 1\<rparr>
                in if \<not> lessNum (length (allOrder st)) (capOf options)
                   then (Break st, net')
                   else (Next st, net')))"

text \<open>Line 154: the loop. It need not end; \<open>None\<close> is a run that never returns.\<close>

partial_function (option) whileLoop ::
  "client \<Rightarrow> string \<Rightarrow> all_options option \<Rightarrow> 'p PostsResponse network \<Rightarrow> 'p loop_state
     \<Rightarrow> ((error + 'p loop_state) \<times> 'p PostsResponse network) option" where
  "whileLoop c channelId options net st =
     (if hasMore st \<and> lessNum (length (allOrder st)) (capOf options)
      then (case loopBody c channelId options net st of
              (Throw e, net') \<Rightarrow> Some (Inl e, net')
            | (Break st', net') \<Rightarrow> Some (Inr st', net')
            | (Next st', net') \<Rightarrow> whileLoop c channelId options net' st')
      else Some (Inr st, net))"

definition initialState :: "'p loop_state" where
  "initialState = \<lparr>allPosts = Map.empty, allOrder = [], page = 0, hasMore = True\<rparr>"

definition getAllPostsForChannel ::
  "client \<Rightarrow> 'p PostsResponse network \<Rightarrow> string \<Rightarrow> all_options option
     \<Rightarrow> ((error + 'p PostsResponse) \<times> 'p PostsResponse network) option" where
  "getAllPostsForChannel c net channelId options =
     (case whileLoop c channelId options net initialState of
        None \<Rightarrow> None
      | Some (Inl e, net') \<Rightarrow> Some (Inl e, net')
      | Some (Inr st, net') \<Rightarrow>
          Some (Inr \<lparr>order = slice0 (allOrder st) (capOf options),
                     posts = allPosts st,
                     next_post_id = '''',
                     prev_post_id = ''''\<rparr>, net'))"

section \<open>Notions used to state the properties\<close>

subsection \<open>Requests, pages and states of a run\<close>

text \<open>The request that the aggregation issues for the page of index \<open>i\<close>, and the outcome
  of fetching that page: what \<open>getPostsForChannel\<close> returns to the loop.\<close>

definition pageRequest :: "client \<Rightarrow> string \<Rightarrow> all_options option \<Rightarrow> nat \<Rightarrow> request" where
  "pageRequest c channelId options i =
     \<lparr>target = postsUrl c channelId perPage i (forwarded options), reqHeaders = headers c\<rparr>"

definition served ::
  "client \<Rightarrow> 'a network \<Rightarrow> string \<Rightarrow> all_options option \<Rightarrow> nat \<Rightarrow> error + 'a" where
  "served c net channelId options i =
     fst (getPostsForChannel c net channelId perPage i (forwarded options))"

text \<open>The ids of a page as served; a failed fetch contributes none.\<close>

fun pageOrder :: "error + 'p PostsResponse \<Rightarrow> string list" where
  "pageOrder (Inl e) = []"
| "pageOrder (Inr r) = order r"

text \<open>The network after further requests have been issued.\<close>

definition issued :: "'a network \<Rightarrow> request list \<Rightarrow> 'a network" where
  "issued net rqs = net\<lparr>sent := sent net @ rqs\<rparr>"

text \<open>The state after lines 167 to 172 have merged the page \<open>r\<close> into the state \<open>st\<close>,
  and the condition of the loop at line 154.\<close>

definition merged :: "'p loop_state \<Rightarrow> 'p PostsResponse \<Rightarrow> 'p loop_state" where
  "merged st r =
     \<lparr>allPosts = allPosts st ++ posts r, allOrder = allOrder st @ order r,
      page = page st + 1, hasMore = (length (order r) = perPage)\<rparr>"

definition guard :: "all_options option \<Rightarrow> 'p loop_state \<Rightarrow> bool" where
  "guard options st = (hasMore st \<and> lessNum (length (allOrder st)) (capOf options))"

text \<open>What every run of the loop that returns satisfies: it has issued the requests of
  \<open>n\<close> consecutive pages, starting at the page of its state; a failure of one of them is
  its result; and the order it has collected is the order it started with followed by the
  ids of these pages.\<close>

definition run_inv ::
  "client \<Rightarrow> string \<Rightarrow> all_options option \<Rightarrow> 'p PostsResponse network \<Rightarrow> 'p loop_state
     \<Rightarrow> (error + 'p loop_state) \<times> 'p PostsResponse network \<Rightarrow> bool" where
  "run_inv c channelId options net st y =
     (\<exists>n. snd y = issued net (map (pageRequest c channelId options) [page st..<page st + n])
           \<and> (guard options st \<longrightarrow> 0 < n)
           \<and> (\<forall>i<n. \<forall>e. served c net channelId options (page st + i) = Inl e \<longrightarrow> fst y = Inl e)
           \<and> (\<forall>st'. fst y = Inr st' \<longrightarrow>
                 allOrder st' = allOrder st @
                   concat (map (\<lambda>i. pageOrder (served c net channelId options i))
                             [page st..<page st + n])))"

text \<open>What a run has returned: its order, the post it holds for an id, and the requests
  issued when it returned.\<close>

definition returnedOrder ::
  "((error + 'p PostsResponse) \<times> 'p PostsResponse network) option \<Rightarrow> string list option" where
  "returnedOrder run =
     (case run of Some (Inr r, net') \<Rightarrow> Some (order r) | Some (Inl e, net') \<Rightarrow> None | None \<Rightarrow> None)"


definition requestsOf ::
  "((error + 'p PostsResponse) \<times> 'p PostsResponse network) option \<Rightarrow> request list option" where
  "requestsOf run = (case run of Some (res, net') \<Rightarrow> Some (sent net') | None \<Rightarrow> None)"

text \<open>The message of an error, and an error that carries a piece of text in its message.\<close>

fun message :: "error \<Rightarrow> string" where
  "message (Error m) = m"

definition carries :: "error \<Rightarrow> string \<Rightarrow> bool" where
  "carries e s = sublist s (message e)"

text \<open>Reading a decimal numeral back, the inverse of \<open>showNat\<close>.\<close>

definition digitValue :: "char \<Rightarrow> nat" where
  "digitValue ch = of_char ch - 48"

definition readNat :: "string \<Rightarrow> nat" where
  "readNat s = foldl (\<lambda>a ch. 10 * a + digitValue ch) 0 s"

subsection \<open>Example upstreams\<close>

text \<open>A client, pages whose ids are decimal numerals, responses, and an upstream that
  answers a request by the response listed for its \<open>page\<close> parameter (a rejected fetch for
  any other page).\<close>

definition demoClient :: client where
  "demoClient = \<lparr>baseUrl = ''https://chat.example.org/api/v4'',
                 headers = [(''Authorization'', ''Bearer secret''),
                            (''Content-Type'', ''application/json'')],
                 teamId = ''team-1''\<rparr>"

definition idsFrom :: "nat \<Rightarrow> nat \<Rightarrow> string list" where
  "idsFrom a n = map (\<lambda>i. toString (int i)) [a..<a + n]"

definition pageOf :: "string list \<Rightarrow> string PostsResponse" where
  "pageOf ids = \<lparr>order = ids, posts = map_of (map (\<lambda>k. (k, ''message '' @ k)) ids),
                 next_post_id = '''', prev_post_id = ''''\<rparr>"

definition okResponse :: "'a \<Rightarrow> 'a response" where
  "okResponse p = \<lparr>status = 200, statusText = ''OK'', bodyText = '''', json = Inr p\<rparr>"

definition errorResponse :: "nat \<Rightarrow> string \<Rightarrow> string \<Rightarrow> 'a response" where
  "errorResponse s t b =
     \<lparr>status = s, statusText = t, bodyText = b, json = Inl (Error ''invalid json'')\<rparr>"

definition pagedNet :: "'a response list \<Rightarrow> 'a network" where
  "pagedNet rs =
     \<lparr>respond = (\<lambda>rq. case map_of (searchParams (target rq)) ''page'' of
                        None \<Rightarrow> Inl (Error ''bad request'')
                      | Some s \<Rightarrow>
                          (case map_of (zip (map (\<lambda>i. toString (int i)) [0..<length rs]) rs) s of
                             None \<Rightarrow> Inl (Error ''connection reset'')
                           | Some r \<Rightarrow> Inr r)),
      sent = []\<rparr>"

definition capped :: "int \<Rightarrow> all_options option" where
  "capped n = Some \<lparr>since = None, before = None, after = None, maxPosts = Some n\<rparr>"

text \<open>Upstreams of the scenarios: pages of \<open>200\<close>, \<open>200\<close> and \<open>47\<close> ids; a second page
  that fails; two disjoint pages; a second page that repeats an id of the first; a second
  page with an empty order that still carries a post.\<close>

definition threePages :: "string PostsResponse network" where
  "threePages = pagedNet [okResponse (pageOf (idsFrom 0 200)),
                          okResponse (pageOf (idsFrom 200 200)),
                          okResponse (pageOf (idsFrom 400 47))]"

definition failingSecondPage :: "string PostsResponse network" where
  "failingSecondPage = pagedNet [okResponse (pageOf (idsFrom 0 200)),
                                 errorResponse 500 ''Internal Server Error'' ''boom'']"

definition twoPages :: "string PostsResponse network" where
  "twoPages = pagedNet [okResponse (pageOf (idsFrom 0 200)),
                        okResponse (pageOf (idsFrom 200 47))]"

definition overlappingPages :: "string PostsResponse network" where
  "overlappingPages = pagedNet [okResponse (pageOf (idsFrom 0 200)),
                                okResponse (pageOf [''0''])]"



text \<open>An upstream of the channels and users endpoints that always gives the same response,
  and a payload of two channels.\<close>

definition channelsNet :: "json response \<Rightarrow> json network" where
  "channelsNet r = \<lparr>respond = (\<lambda>rq. Inr r), sent = []\<rparr>"

definition demoChannels :: "json list" where
  "demoChannels =
     [JObj [(''id'', JStr ''c1''), (''name'', JStr ''town-square'')],
      JObj [(''id'', JStr ''c2''), (''name'', JStr ''off-topic'')]]"

section \<open>Lemmas\<close>

subsection \<open>The network and one iteration of the loop\<close>

lemma issued_Nil [simp]: "issued net [] = net"
  by (simp add: issued_def)

lemma issued_issued [simp]: "issued (issued net xs) ys = issued net (xs @ ys)"
  by (simp add: issued_def)

lemma sent_issued [simp]: "sent (issued net xs) = sent net @ xs"
  by (simp add: issued_def)

lemma respond_issued [simp]: "respond (issued net xs) = respond net"
  by (simp add: issued_def)

lemma getPosts_split:
  "getPostsForChannel c net channelId perPage i (forwarded options) =
     (served c net channelId options i, issued net [pageRequest c channelId options i])"
  by (simp add: getPostsForChannel_def served_def issued_def pageRequest_def fetch_def
      split: sum.splits)

lemma served_issued [simp]:
  "served c (issued net xs) channelId options i = served c net channelId options i"
  by (simp add: served_def getPostsForChannel_def fetch_def split: sum.splits)

lemma lessNum_mono: "lessNum n cap \<Longrightarrow> m \<le> n \<Longrightarrow> lessNum m cap"
  by (cases cap) auto

lemma loopBody_throw:
  "served c net channelId options (page st) = Inl e \<Longrightarrow>
   loopBody c channelId options net st =
     (Throw e, issued net [pageRequest c channelId options (page st)])"
  by (simp add: loopBody_def getPosts_split)

lemma loopBody_empty:
  "served c net channelId options (page st) = Inr r \<Longrightarrow> order r = [] \<Longrightarrow>
   loopBody c channelId options net st =
     (Break (st\<lparr>hasMore := False\<rparr>), issued net [pageRequest c channelId options (page st)])"
  by (simp add: loopBody_def getPosts_split)

lemma loopBody_merge:
  "served c net channelId options (page st) = Inr r \<Longrightarrow> order r \<noteq> [] \<Longrightarrow>
   loopBody c channelId options net st =
     ((if lessNum (length (allOrder st) + length (order r)) (capOf options)
       then Next (merged st r) else Break (merged st r)),
      issued net [pageRequest c channelId options (page st)])"
  by (simp add: loopBody_def getPosts_split merged_def Let_def)

subsection \<open>Unfolding the loop\<close>

lemma loop_exit: "\<not> guard options st \<Longrightarrow> whileLoop c channelId options net st = Some (Inr st, net)"
  by (subst whileLoop.simps) (auto simp add: guard_def)

lemma loop_throw:
  "guard options st \<Longrightarrow> served c net channelId options (page st) = Inl e \<Longrightarrow>
   whileLoop c channelId options net st =
     Some (Inl e, issued net [pageRequest c channelId options (page st)])"
  by (subst whileLoop.simps) (simp add: guard_def loopBody_throw)

lemma loop_empty:
  "guard options st \<Longrightarrow> served c net channelId options (page st) = Inr r \<Longrightarrow> order r = [] \<Longrightarrow>
   whileLoop c channelId options net st =
     Some (Inr (st\<lparr>hasMore := False\<rparr>), issued net [pageRequest c channelId options (page st)])"
  by (subst whileLoop.simps) (simp add: guard_def loopBody_empty)

lemma loop_next:
  "guard options st \<Longrightarrow> served c net channelId options (page st) = Inr r \<Longrightarrow> order r \<noteq> [] \<Longrightarrow>
   whileLoop c channelId options net st =
     whileLoop c channelId options (issued net [pageRequest c channelId options (page st)])
       (merged st r)"
proof (cases "lessNum (length (allOrder st) + length (order r)) (capOf options)")
  case True
  assume "guard options st" "served c net channelId options (page st) = Inr r" "order r \<noteq> []"
  then show ?thesis using True
    by (subst whileLoop.simps) (simp add: guard_def loopBody_merge)
next
  case False
  assume a: "guard options st" "served c net channelId options (page st) = Inr r" "order r \<noteq> []"
  have "\<not> guard options (merged st r)"
    using False by (simp add: guard_def merged_def)
  then have "whileLoop c channelId options (issued net [pageRequest c channelId options (page st)])
       (merged st r) = Some (Inr (merged st r), issued net [pageRequest c channelId options (page st)])"
    by (rule loop_exit)
  moreover have "whileLoop c channelId options net st =
      Some (Inr (merged st r), issued net [pageRequest c channelId options (page st)])"
    using a False by (subst whileLoop.simps) (simp add: guard_def loopBody_merge)
  ultimately show ?thesis by simp
qed

lemma loop_last:
  "guard options st \<Longrightarrow> served c net channelId options (page st) = Inr r \<Longrightarrow> order r \<noteq> [] \<Longrightarrow>
   length (order r) < perPage \<or> \<not> lessNum (length (allOrder st) + length (order r)) (capOf options) \<Longrightarrow>
   whileLoop c channelId options net st =
     Some (Inr (merged st r), issued net [pageRequest c channelId options (page st)])"
proof -
  assume a: "guard options st" "served c net channelId options (page st) = Inr r" "order r \<noteq> []"
    and b: "length (order r) < perPage \<or> \<not> lessNum (length (allOrder st) + length (order r)) (capOf options)"
  have "\<not> guard options (merged st r)"
    using b by (auto simp add: guard_def merged_def)
  then show ?thesis
    using loop_next [OF a] by (simp add: loop_exit)
qed

subsection \<open>Runs over full pages\<close>

lemma allOrder_foldl_merged:
  "allOrder (foldl merged st ps) = allOrder st @ concat (map order ps)"
  by (induction ps arbitrary: st) (simp_all add: merged_def)

lemma page_foldl_merged:
  "page (foldl merged st ps) = page st + length ps"
  by (induction ps arbitrary: st) (simp_all add: merged_def)

lemma hasMore_foldl_merged:
  "hasMore st \<Longrightarrow> \<forall>r \<in> set ps. length (order r) = perPage \<Longrightarrow> hasMore (foldl merged st ps)"
  by (induction ps arbitrary: st) (simp_all add: merged_def)

lemma length_concat_full:
  "\<forall>r \<in> set ps. length (order r) = perPage \<Longrightarrow>
   length (concat (map order ps)) = perPage * length ps"
  by (induction ps) simp_all

lemma loop_full_pages:
  assumes "hasMore st"
    and "\<forall>j<k. served c net channelId options (page st + j) = Inr (pg j)
            \<and> length (order (pg j)) = perPage
            \<and> lessNum (length (allOrder st) + perPage * (j + 1)) (capOf options)"
  shows "whileLoop c channelId options net st =
         whileLoop c channelId options
           (issued net (map (pageRequest c channelId options) [page st..<page st + k]))
           (foldl merged st (map pg [0..<k]))"
  using assms(2)
proof (induction k)
  case 0
  then show ?case by simp
next
  case (Suc k)
  let ?net = "issued net (map (pageRequest c channelId options) [page st..<page st + k])"
  let ?st = "foldl merged st (map pg [0..<k])"
  have full: "\<forall>r \<in> set (map pg [0..<k]). length (order r) = perPage"
    using Suc.prems by auto
  have len: "length (allOrder ?st) = length (allOrder st) + perPage * k"
    using length_concat_full [OF full] by (simp add: allOrder_foldl_merged)
  have pg: "page ?st = page st + k"
    by (simp add: page_foldl_merged)
  have k: "served c net channelId options (page st + k) = Inr (pg k)"
    "length (order (pg k)) = perPage"
    "lessNum (length (allOrder st) + perPage * (k + 1)) (capOf options)"
    using Suc.prems by auto
  have g: "guard options ?st"
    using hasMore_foldl_merged [OF assms(1) full] lessNum_mono [OF k(3)]
    by (simp add: guard_def len)
  have ne: "order (pg k) \<noteq> []"
    using k(2) by (auto simp add: perPage_def)
  have s: "served c ?net channelId options (page ?st) = Inr (pg k)"
    using k(1) by (simp add: pg)
  have "whileLoop c channelId options net st = whileLoop c channelId options ?net ?st"
    using Suc by simp
  also have "\<dots> = whileLoop c channelId options
      (issued ?net [pageRequest c channelId options (page ?st)]) (merged ?st (pg k))"
    by (rule loop_next [OF g s ne])
  finally show ?case
    by (simp add: pg)
qed

subsection \<open>A run with a cap returns\<close>

lemma loop_returns_with_cap:
  assumes "capOf options = Finite N"
  shows "\<exists>res net'. whileLoop c channelId options net st = Some (res, net')"
proof (induction "nat (N - int (length (allOrder st)))" arbitrary: net st rule: less_induct)
  case less
  let ?rq = "pageRequest c channelId options (page st)"
  show ?case
  proof (cases "guard options st")
    case False
    then show ?thesis by (simp add: loop_exit)
  next
    case g: True
    show ?thesis
    proof (cases "served c net channelId options (page st)")
      case (Inl e)
      then show ?thesis using g by (simp add: loop_throw)
    next
      case (Inr r)
      show ?thesis
      proof (cases "order r = []")
        case True
        then show ?thesis using g Inr by (simp add: loop_empty)
      next
        case ne: False
        show ?thesis
        proof (cases "lessNum (length (allOrder st) + length (order r)) (capOf options)")
          case False
          then show ?thesis using g Inr ne by (simp add: loop_last)
        next
          case True
          have "nat (N - int (length (allOrder (merged st r)))) < nat (N - int (length (allOrder st)))"
            using True ne assms by (simp add: merged_def)
          from less [OF this] show ?thesis
            using loop_next [OF g Inr ne] by simp
        qed
      qed
    qed
  qed
qed

subsection \<open>What a returning run of the loop has done\<close>

lemma upt_shift: "[p..<p + Suc n] = p # [Suc p..<Suc p + n]"
  by (simp add: upt_rec)

lemma run_invI:
  "snd y = issued net (map (pageRequest c channelId options) [page st..<page st + n]) \<Longrightarrow>
   guard options st \<longrightarrow> 0 < n \<Longrightarrow>
   \<forall>i<n. \<forall>e. served c net channelId options (page st + i) = Inl e \<longrightarrow> fst y = Inl e \<Longrightarrow>
   \<forall>st'. fst y = Inr st' \<longrightarrow>
                 allOrder st' = allOrder st @
                   concat (map (\<lambda>i. pageOrder (served c net channelId options i))
                             [page st..<page st + n]) \<Longrightarrow>
   run_inv c channelId options net st y"
  unfolding run_inv_def by blast

lemma loop_run_inv:
  assumes "whileLoop c channelId options net st = Some y"
  shows "run_inv c channelId options net st y"
  using assms
proof (induction rule: whileLoop.raw_induct [rotated 1, consumes 1, case_names body])
  case (body loop c channelId options net st y)
  note 1 = body
  let ?rq = "pageRequest c channelId options (page st)"
  show ?case
  proof (cases "guard options st")
    case False
    then have "y = (Inr st, net)"
      using 1(2) by (auto simp add: guard_def)
    then show ?thesis using False
      by (intro run_invI [of _ _ _ _ _ _ 0]) simp_all
  next
    case g: True
    show ?thesis
    proof (cases "served c net channelId options (page st)")
      case (Inl e)
      then have "y = (Inl e, issued net [?rq])"
        using 1(2) g by (auto simp add: guard_def loopBody_throw)
      then show ?thesis using Inl
        by (intro run_invI [of _ _ _ _ _ _ 1]) simp_all
    next
      case (Inr r)
      show ?thesis
      proof (cases "order r = []")
        case True
        then have "y = (Inr (st\<lparr>hasMore := False\<rparr>), issued net [?rq])"
          using 1(2) g Inr by (auto simp add: guard_def loopBody_empty)
        then show ?thesis using Inr True
          by (intro run_invI [of _ _ _ _ _ _ 1]) simp_all
      next
        case ne: False
        show ?thesis
        proof (cases "lessNum (length (allOrder st) + length (order r)) (capOf options)")
          case False
          then have "y = (Inr (merged st r), issued net [?rq])"
            using 1(2) g Inr ne by (auto simp add: guard_def loopBody_merge)
          then show ?thesis using Inr
            by (intro run_invI [of _ _ _ _ _ _ 1]) (simp_all add: merged_def)
        next
          case True
          then have "loop c channelId options (issued net [?rq]) (merged st r) = Some y"
            using 1(2) g Inr ne by (auto simp add: guard_def loopBody_merge)
          from 1(1) [OF this] obtain n where n:
            "snd y = issued (issued net [?rq])
                (map (pageRequest c channelId options) [page (merged st r)..<page (merged st r) + n])"
            "\<forall>i<n. \<forall>e. served c (issued net [?rq]) channelId options (page (merged st r) + i) = Inl e
                \<longrightarrow> fst y = Inl e"
            "\<forall>st'. fst y = Inr st' \<longrightarrow>
                 allOrder st' = allOrder (merged st r) @
                   concat (map (\<lambda>i. pageOrder (served c (issued net [?rq]) channelId options i))
                             [page (merged st r)..<page (merged st r) + n])"
            unfolding run_inv_def by blast
          have p: "page (merged st r) = Suc (page st)"
            by (simp add: merged_def)
          have a: "snd y = issued net (map (pageRequest c channelId options) [page st..<page st + Suc n])"
            using n(1) unfolding p upt_shift by simp
          have b: "\<forall>i<Suc n. \<forall>e. served c net channelId options (page st + i) = Inl e
                \<longrightarrow> fst y = Inl e"
          proof (intro allI impI)
            fix i e assume i: "i < Suc n" and e: "served c net channelId options (page st + i) = Inl e"
            show "fst y = Inl e"
            proof (cases i)
              case 0
              then show ?thesis using e Inr by simp
            next
              case (Suc j)
              then show ?thesis using n(2) i e by (simp add: p)
            qed
          qed
          have d: "\<forall>st'. fst y = Inr st' \<longrightarrow>
                 allOrder st' = allOrder st @
                   concat (map (\<lambda>i. pageOrder (served c net channelId options i))
                             [page st..<page st + Suc n])"
            using n(3) Inr unfolding p upt_shift by (simp add: merged_def)
          show ?thesis
            by (rule run_invI [OF a _ b d]) simp
        qed
      qed
    qed
  qed
qed

subsection \<open>Runs of the loop that end at a given page\<close>

lemma guard_foldl_merged:
  assumes "hasMore st"
    and "\<forall>r \<in> set ps. length (order r) = perPage"
    and "lessNum (length (allOrder st) + perPage * length ps) (capOf options)"
  shows "guard options (foldl merged st ps)"
  using hasMore_foldl_merged [OF assms(1,2)] length_concat_full [OF assms(2)] assms(3)
  by (simp add: guard_def allOrder_foldl_merged)

lemma run_last:
  assumes "hasMore st"
    and "\<forall>j<k. served c net channelId options (page st + j) = Inr (pg j)
            \<and> length (order (pg j)) = perPage
            \<and> lessNum (length (allOrder st) + perPage * (j + 1)) (capOf options)"
    and "lessNum (length (allOrder st) + perPage * k) (capOf options)"
    and "served c net channelId options (page st + k) = Inr r"
    and "order r \<noteq> []"
    and "length (order r) < perPage
         \<or> \<not> lessNum (length (allOrder st) + perPage * k + length (order r)) (capOf options)"
  shows "whileLoop c channelId options net st =
         Some (Inr (merged (foldl merged st (map pg [0..<k])) r),
               issued net (map (pageRequest c channelId options) [page st..<page st + Suc k]))"
proof -
  let ?net = "issued net (map (pageRequest c channelId options) [page st..<page st + k])"
  let ?st = "foldl merged st (map pg [0..<k])"
  have full: "\<forall>r \<in> set (map pg [0..<k]). length (order r) = perPage"
    using assms(2) by auto
  have g: "guard options ?st"
    using guard_foldl_merged [OF assms(1) full] assms(3) by simp
  have len: "length (allOrder ?st) = length (allOrder st) + perPage * k"
    using length_concat_full [OF full] by (simp add: allOrder_foldl_merged)
  have s: "served c ?net channelId options (page ?st) = Inr r"
    using assms(4) by (simp add: page_foldl_merged)
  have "whileLoop c channelId options ?net ?st =
      Some (Inr (merged ?st r), issued ?net [pageRequest c channelId options (page ?st)])"
    using assms(6) by (intro loop_last [OF g s assms(5)]) (simp add: len)
  then show ?thesis
    using loop_full_pages [OF assms(1,2)] by (simp add: page_foldl_merged)
qed

lemma run_empty:
  assumes "hasMore st"
    and "\<forall>j<k. served c net channelId options (page st + j) = Inr (pg j)
            \<and> length (order (pg j)) = perPage
            \<and> lessNum (length (allOrder st) + perPage * (j + 1)) (capOf options)"
    and "lessNum (length (allOrder st) + perPage * k) (capOf options)"
    and "served c net channelId options (page st + k) = Inr r"
    and "order r = []"
  shows "whileLoop c channelId options net st =
         Some (Inr ((foldl merged st (map pg [0..<k]))\<lparr>hasMore := False\<rparr>),
               issued net (map (pageRequest c channelId options) [page st..<page st + Suc k]))"
proof -
  let ?net = "issued net (map (pageRequest c channelId options) [page st..<page st + k])"
  let ?st = "foldl merged st (map pg [0..<k])"
  have full: "\<forall>r \<in> set (map pg [0..<k]). length (order r) = perPage"
    using assms(2) by auto
  have g: "guard options ?st"
    using guard_foldl_merged [OF assms(1) full] assms(3) by simp
  have s: "served c ?net channelId options (page ?st) = Inr r"
    using assms(4) by (simp add: page_foldl_merged)
  have "whileLoop c channelId options ?net ?st =
      Some (Inr (?st\<lparr>hasMore := False\<rparr>), issued ?net [pageRequest c channelId options (page ?st)])"
    by (rule loop_empty [OF g s assms(5)])
  then show ?thesis
    using loop_full_pages [OF assms(1,2)] by (simp add: page_foldl_merged)
qed

lemma run_throw:
  assumes "hasMore st"
    and "\<forall>j<k. served c net channelId options (page st + j) = Inr (pg j)
            \<and> length (order (pg j)) = perPage
            \<and> lessNum (length (allOrder st) + perPage * (j + 1)) (capOf options)"
    and "lessNum (length (allOrder st) + perPage * k) (capOf options)"
    and "served c net channelId options (page st + k) = Inl e"
  shows "whileLoop c channelId options net st =
         Some (Inl e,
               issued net (map (pageRequest c channelId options) [page st..<page st + Suc k]))"
proof -
  let ?net = "issued net (map (pageRequest c channelId options) [page st..<page st + k])"
  let ?st = "foldl merged st (map pg [0..<k])"
  have full: "\<forall>r \<in> set (map pg [0..<k]). length (order r) = perPage"
    using assms(2) by auto
  have g: "guard options ?st"
    using guard_foldl_merged [OF assms(1) full] assms(3) by simp
  have s: "served c ?net channelId options (page ?st) = Inl e"
    using assms(4) by (simp add: page_foldl_merged)
  have "whileLoop c channelId options ?net ?st =
      Some (Inl e, issued ?net [pageRequest c channelId options (page ?st)])"
    by (rule loop_throw [OF g s])
  then show ?thesis
    using loop_full_pages [OF assms(1,2)] by (simp add: page_foldl_merged)
qed

subsection \<open>From the loop to the method\<close>

lemma getAll_Inr:
  "whileLoop c channelId options net initialState = Some (Inr st, net') \<Longrightarrow>
   getAllPostsForChannel c net channelId options =
     Some (Inr \<lparr>order = slice0 (allOrder st) (capOf options), posts = allPosts st,
                next_post_id = '''', prev_post_id = ''''\<rparr>, net')"
  by (simp add: getAllPostsForChannel_def)

lemma getAll_Inl:
  "whileLoop c channelId options net initialState = Some (Inl e, net') \<Longrightarrow>
   getAllPostsForChannel c net channelId options = Some (Inl e, net')"
  by (simp add: getAllPostsForChannel_def)

lemma getAll_cases:
  "getAllPostsForChannel c net channelId options = Some (res, net') \<Longrightarrow>
   (\<exists>e. res = Inl e \<and> whileLoop c channelId options net initialState = Some (Inl e, net'))
   \<or> (\<exists>st. res = Inr \<lparr>order = slice0 (allOrder st) (capOf options), posts = allPosts st,
                next_post_id = '''', prev_post_id = ''''\<rparr>
        \<and> whileLoop c channelId options net initialState = Some (Inr st, net'))"
  by (auto simp add: getAllPostsForChannel_def split: option.splits sum.splits)

subsection \<open>A cap on an upstream that serves a collection\<close>

lemma capOf_Some: "N \<noteq> 0 \<Longrightarrow> Option.bind options maxPosts = Some N \<Longrightarrow> capOf options = Finite N"
  by (simp add: capOf_def)

lemma concat_chunks:
  "concat (map (\<lambda>i. take m (drop (m * i) xs)) [0..<k]) = take (m * k) xs"
proof (induction k)
  case 0
  then show ?case by simp
next
  case (Suc k)
  have "take (m * k) xs @ take m (drop (m * k) xs) = take (m * k + m) xs"
    by (simp add: take_add)
  then show ?case using Suc by (simp add: add.commute)
qed

lemma initial_simps [simp]:
  "hasMore initialState" "allOrder initialState = []" "page initialState = 0"
  "allPosts initialState = Map.empty"
  by (simp_all add: initialState_def)

lemma lessNum_nat: "lessNum a (Finite (int n)) = (a < n)"
  by simp

lemma capped_run_collects_cap:
  assumes N: "1 \<le> N" and cap: "Option.bind options maxPosts = Some N"
    and ids: "N \<le> int (length ids)"
    and pages: "\<forall>i. int (perPage * i) < N \<longrightarrow>
        (\<exists>r. served c net channelId options i = Inr r
           \<and> order r = take perPage (drop (perPage * i) ids))"
  shows "\<exists>r. getAllPostsForChannel c net channelId options =
            Some (Inr r, issued net (map (pageRequest c channelId options)
                                       [0..<Suc (nat (N - 1) div perPage)]))
          \<and> order r = take (nat N) ids \<and> int (length (order r)) = N"
proof -
  define n where "n = nat N"
  define k where "k = (n - 1) div perPage"
  define pg where "pg = (\<lambda>i. projr (served c net channelId options i))"
  have n: "1 \<le> n" "n \<le> length ids" "N = int n"
    using N ids by (simp_all add: n_def)
  have capF: "capOf options = Finite (int n)"
    using capOf_Some [OF _ cap] N n by simp
  have k1: "perPage * k \<le> n - 1"
    by (simp add: k_def)
  have k2: "n - 1 < perPage * (k + 1)"
    unfolding k_def perPage_def using dividend_less_times_div [of 200 "n - 1"] by simp
  have pg: "served c net channelId options i = Inr (pg i)
      \<and> order (pg i) = take perPage (drop (perPage * i) ids)" if "perPage * i < n" for i
  proof -
    have "int (perPage * i) < N"
      using that n(3) by linarith
    with pages obtain r where "served c net channelId options i = Inr r"
      "order r = take perPage (drop (perPage * i) ids)"
      by blast
    then show ?thesis by (simp add: pg_def)
  qed
  have full: "\<forall>j<k. served c net channelId options (page initialState + j) = Inr (pg j)
            \<and> length (order (pg j)) = perPage
            \<and> lessNum (length (allOrder (initialState :: 'a loop_state)) + perPage * (j + 1)) (capOf options)"
  proof (intro allI impI)
    fix j assume j: "j < k"
    then have "j + 1 \<le> k" by simp
    then have "perPage * (j + 1) \<le> perPage * k"
      by (rule mult_le_mono2)
    then have b: "perPage * (j + 1) \<le> n - 1"
      using k1 by simp
    then have "perPage * j < n"
      using n by simp
    moreover have "perPage \<le> length ids - perPage * j"
      using b n by (simp add: algebra_simps)
    ultimately have "served c net channelId options j = Inr (pg j)"
      "length (order (pg j)) = perPage"
      using pg [of j] by simp_all
    then show "served c net channelId options (page initialState + j) = Inr (pg j)
            \<and> length (order (pg j)) = perPage
            \<and> lessNum (length (allOrder (initialState :: 'a loop_state)) + perPage * (j + 1)) (capOf options)"
      using b n by (simp add: capF lessNum_nat del: lessNum.simps)
  qed
  have kn: "perPage * k < n"
    using k1 n by simp
  have last: "served c net channelId options k = Inr (pg k)"
    "order (pg k) = take perPage (drop (perPage * k) ids)"
    using pg [OF kn] by simp_all
  have ne: "order (pg k) \<noteq> []"
    using last(2) kn n by (simp add: perPage_def)
  have reach: "\<not> lessNum (length (allOrder (initialState :: 'a loop_state)) + perPage * k
      + length (order (pg k))) (capOf options)"
    using k2 n kn by (auto simp add: capF last(2) min_def lessNum_nat simp del: lessNum.simps)
  have "whileLoop c channelId options net initialState =
         Some (Inr (merged (foldl merged initialState (map pg [0..<k])) (pg k)),
               issued net (map (pageRequest c channelId options)
                   [page (initialState :: 'a loop_state)..<page (initialState :: 'a loop_state) + Suc k]))"
    using kn last(1) reach
    by (intro run_last [OF _ full _ _ ne]) (simp_all add: capF lessNum_nat del: lessNum.simps)
  from getAll_Inr [OF this]
  have run: "getAllPostsForChannel c net channelId options =
      Some (Inr \<lparr>order = slice0 (allOrder (merged (foldl merged initialState (map pg [0..<k])) (pg k)))
                    (capOf options),
                 posts = allPosts (merged (foldl merged initialState (map pg [0..<k])) (pg k)),
                 next_post_id = '''', prev_post_id = ''''\<rparr>,
            issued net (map (pageRequest c channelId options) [0..<Suc k]))"
    by simp
  have "\<forall>i \<in> set [0..<Suc k]. order (pg i) = take perPage (drop (perPage * i) ids)"
  proof
    fix i assume "i \<in> set [0..<Suc k]"
    then have "i \<le> k" by auto
    then have "perPage * i \<le> perPage * k" by (rule mult_le_mono2)
    then have "perPage * i < n" using kn by (rule le_less_trans)
    from pg [OF this] show "order (pg i) = take perPage (drop (perPage * i) ids)" by simp
  qed
  then have "map (\<lambda>i. order (pg i)) [0..<Suc k]
      = map (\<lambda>i. take perPage (drop (perPage * i) ids)) [0..<Suc k]"
    by (intro map_cong) auto
  then have "concat (map (\<lambda>i. order (pg i)) [0..<Suc k])
      = concat (map (\<lambda>i. take perPage (drop (perPage * i) ids)) [0..<Suc k])"
    by (rule arg_cong)
  also have "\<dots> = take (perPage * Suc k) ids"
    by (rule concat_chunks)
  finally have "concat (map (\<lambda>i. order (pg i)) [0..<Suc k]) = take (perPage * Suc k) ids" .
  then have all: "allOrder (merged (foldl merged initialState (map pg [0..<k])) (pg k))
      = take (perPage * Suc k) ids"
    by (simp add: merged_def allOrder_foldl_merged comp_def)
  have "n \<le> perPage * Suc k"
    using k2 by simp
  then have sl: "slice0 (take (perPage * Suc k) ids) (capOf options) = take n ids"
    by (simp add: capF min_def)
  have e1: "nat (N - 1) div perPage = k"
    using N by (simp add: k_def n_def nat_diff_distrib)
  have e2: "nat N = n"
    by (simp add: n_def)
  let ?r = "\<lparr>order = take n ids,
             posts = allPosts (merged (foldl merged initialState (map pg [0..<k])) (pg k)),
             next_post_id = [], prev_post_id = []\<rparr>"
  have "getAllPostsForChannel c net channelId options =
      Some (Inr ?r, issued net (map (pageRequest c channelId options)
                                       [0..<Suc (nat (N - 1) div perPage)]))"
    unfolding e1 using run by (simp only: all sl)
  moreover have "order ?r = take (nat N) ids"
    by (simp add: e2)
  moreover have "int (length (order ?r)) = N"
    using n(2) N by (simp add: n_def)
  ultimately show ?thesis
    by blast
qed

lemma capped_run_bounded:
  assumes N: "1 \<le> N" and cap: "Option.bind options maxPosts = Some N"
  shows "\<exists>res net'. getAllPostsForChannel c net channelId options = Some (res, net')
           \<and> (\<forall>r. res = Inr r \<longrightarrow> int (length (order r)) \<le> N)"
proof -
  have capF: "capOf options = Finite N"
    using capOf_Some [OF _ cap] N by simp
  from loop_returns_with_cap [OF capF] obtain res net' where
    loop: "whileLoop c channelId options net initialState = Some (res, net')"
    by blast
  show ?thesis
  proof (cases res)
    case (Inl e)
    then show ?thesis using getAll_Inl loop by fastforce
  next
    case (Inr st)
    then show ?thesis using getAll_Inr [of c channelId options net st net'] loop N
      by (simp add: capF)
  qed
qed

subsection \<open>The options matter through the cap and the filters only\<close>





subsection \<open>Orders without duplicates\<close>

lemma set_concat_upt:
  "set (concat (map f [0..<n])) = (\<Union>i<n. set (f i))"
  by (induction n) (auto simp add: less_Suc_eq)

lemma distinct_concat_upt:
  assumes "\<forall>i<n. distinct (f i)"
    and "\<forall>i<n. \<forall>j<n. i \<noteq> j \<longrightarrow> set (f i) \<inter> set (f j) = {}"
  shows "distinct (concat (map f [0..<n]))"
  using assms
proof (induction n)
  case 0
  then show ?case by simp
next
  case (Suc n)
  have "distinct (concat (map f [0..<n]))"
    using Suc by simp
  moreover have "distinct (f n)"
    using Suc.prems by simp
  moreover have "set (f i) \<inter> set (f n) = {}" if "i < n" for i
    using Suc.prems(2) that by auto
  then have "(\<Union>i<n. set (f i) \<inter> set (f n)) = {}"
    by simp
  then have "set (concat (map f [0..<n])) \<inter> set (f n) = {}"
    unfolding set_concat_upt by blast
  ultimately show ?case by simp
qed

lemma distinct_slice0: "distinct xs \<Longrightarrow> distinct (slice0 xs cap)"
  by (cases cap) simp_all

subsection \<open>Decimal ids and the example upstreams\<close>

lemmas demo_defs = served_def getPostsForChannel_def fetch_def pagedNet_def postsUrl_def
  forwarded_def newURL_def appendParam_def toString_def showNat.simps digit_def ok_def
  okResponse_def errorResponse_def perPage_def demoClient_def capped_def

lemma length_idsFrom [simp]: "length (idsFrom a n) = n"
  by (simp add: idsFrom_def)

lemma order_pageOf [simp]: "order (pageOf ids) = ids"
  by (simp add: pageOf_def)

lemma digitValue_digit: "d < 10 \<Longrightarrow> digitValue (digit d) = d"
proof -
  assume "d < 10"
  then have "d \<in> {0, 1, 2, 3, 4, 5, 6, 7, 8, 9}"
    by auto
  then show ?thesis
    by (auto simp add: digitValue_def digit_def)
qed

lemma readNat_snoc: "readNat (s @ [ch]) = 10 * readNat s + digitValue ch"
  by (simp add: readNat_def)

lemma readNat_showNat: "readNat (showNat n) = n"
proof (induction n rule: showNat.induct)
  case (1 n)
  show ?case
  proof (cases "n < 10")
    case True
    then show ?thesis
      by (subst showNat.simps) (simp add: readNat_def digitValue_digit)
  next
    case False
    have "readNat (showNat n) = 10 * readNat (showNat (n div 10)) + digitValue (digit (n mod 10))"
      using False by (subst showNat.simps) (simp add: readNat_snoc)
    then show ?thesis
      using 1 [OF False] by (simp add: digitValue_digit)
  qed
qed

lemma inj_showNat: "inj showNat"
  by (rule inj_on_inverseI [of _ readNat]) (rule readNat_showNat)

lemma inj_toString_int: "inj (\<lambda>i. toString (int i))"
proof (rule injI)
  fix x y :: nat
  assume "toString (int x) = toString (int y)"
  then have "showNat x = showNat y"
    by (simp add: toString_def)
  then show "x = y"
    using inj_showNat by (simp add: inj_eq)
qed

lemma distinct_idsFrom [simp]: "distinct (idsFrom a n)"
  unfolding idsFrom_def
  by (simp add: distinct_map inj_on_subset [OF inj_toString_int])

lemma set_idsFrom: "set (idsFrom a n) = (\<lambda>i. toString (int i)) ` {a..<a + n}"
  by (simp add: idsFrom_def)

lemma idsFrom_disjoint:
  "a + n \<le> b \<Longrightarrow> set (idsFrom a n) \<inter> set (idsFrom b m) = {}"
proof -
  assume le: "a + n \<le> b"
  have "set (idsFrom a n) \<inter> set (idsFrom b m)
      = (\<lambda>i. toString (int i)) ` ({a..<a + n} \<inter> {b..<b + m})"
    unfolding set_idsFrom by (rule image_Int [OF inj_toString_int, symmetric])
  also have "{a..<a + n} \<inter> {b..<b + m} = {}"
    using le by auto
  finally show ?thesis by simp
qed


subsection \<open>Runs of the method\<close>

lemma getAll_single_page:
  assumes "served c net channelId options 0 = Inr r" "order r \<noteq> []"
    and "length (order r) < perPage" "lessNum 0 (capOf options)"
  shows "getAllPostsForChannel c net channelId options =
     Some (Inr \<lparr>order = slice0 (order r) (capOf options), posts = posts r,
                next_post_id = '''', prev_post_id = ''''\<rparr>,
           issued net [pageRequest c channelId options 0])"
proof -
  have "whileLoop c channelId options net initialState =
      Some (Inr (merged initialState r), issued net [pageRequest c channelId options 0])"
    using loop_last [of options initialState c net channelId r] assms
    by (simp add: guard_def)
  from getAll_Inr [OF this] show ?thesis
    by (simp add: merged_def)
qed




lemma getAll_run_inv:
  assumes "getAllPostsForChannel c net channelId options = Some (res, net')"
  shows "\<exists>n. net' = issued net (map (pageRequest c channelId options) [0..<n])
           \<and> (lessNum 0 (capOf options) \<longrightarrow> 0 < n)
           \<and> (\<forall>i<n. \<forall>e. served c net channelId options i = Inl e \<longrightarrow> res = Inl e)
           \<and> (\<forall>r. res = Inr r \<longrightarrow>
                 order r = slice0 (concat (map (\<lambda>i. pageOrder (served c net channelId options i))
                             [0..<n])) (capOf options))"
proof -
  obtain lres where
    loop: "whileLoop c channelId options net initialState = Some (lres, net')"
    and e: "\<And>e. lres = Inl e \<Longrightarrow> res = Inl e"
    and r: "\<And>r. res = Inr r \<Longrightarrow> \<exists>st. lres = Inr st \<and> order r = slice0 (allOrder st) (capOf options)"
  proof -
    from getAll_cases [OF assms] show ?thesis
    proof
      assume "\<exists>e. res = Inl e \<and> whileLoop c channelId options net initialState = Some (Inl e, net')"
      then obtain e where "res = Inl e"
        "whileLoop c channelId options net initialState = Some (Inl e, net')"
        by blast
      then show ?thesis
        by (intro that [of "Inl e"]) simp_all
    next
      assume "\<exists>st. res = Inr \<lparr>order = slice0 (allOrder st) (capOf options), posts = allPosts st,
                next_post_id = '''', prev_post_id = ''''\<rparr>
        \<and> whileLoop c channelId options net initialState = Some (Inr st, net')"
      then obtain st where "res = Inr \<lparr>order = slice0 (allOrder st) (capOf options),
                posts = allPosts st, next_post_id = '''', prev_post_id = ''''\<rparr>"
        "whileLoop c channelId options net initialState = Some (Inr st, net')"
        by blast
      then show ?thesis
        by (intro that [of "Inr st"]) auto
    qed
  qed
  from loop_run_inv [OF loop] obtain n where n:
    "net' = issued net (map (pageRequest c channelId options) [0..<n])"
    "guard options (initialState :: 'a loop_state) \<longrightarrow> 0 < n"
    "\<forall>i<n. \<forall>e. served c net channelId options i = Inl e \<longrightarrow> lres = Inl e"
    "\<forall>st'. lres = Inr st' \<longrightarrow>
        allOrder st' = concat (map (\<lambda>i. pageOrder (served c net channelId options i)) [0..<n])"
    unfolding run_inv_def by auto
  have "lessNum 0 (capOf options) \<longrightarrow> 0 < n"
    using n(2) by (simp add: guard_def)
  moreover have "\<forall>i<n. \<forall>e. served c net channelId options i = Inl e \<longrightarrow> res = Inl e"
    using n(3) e by blast
  moreover have "\<forall>r. res = Inr r \<longrightarrow>
      order r = slice0 (concat (map (\<lambda>i. pageOrder (served c net channelId options i))
                             [0..<n])) (capOf options)"
  proof (intro allI impI)
    fix r' assume "res = Inr r'"
    from r [OF this] obtain st where "lres = Inr st"
      "order r' = slice0 (allOrder st) (capOf options)"
      by blast
    then show "order r' = slice0 (concat (map (\<lambda>i. pageOrder (served c net channelId options i))
                             [0..<n])) (capOf options)"
      using n(4) by simp
  qed
  ultimately show ?thesis
    using n(1) by blast
qed

lemma idsFrom_nonempty [simp]: "0 < n \<Longrightarrow> idsFrom a n \<noteq> []"
  by (simp add: idsFrom_def)

lemma capOf_zero [simp]: "capOf (Some (opts\<lparr>maxPosts := Some 0\<rparr>)) = Infinity"
  by (simp add: capOf_def)

lemma capOf_absent [simp]: "capOf (Some (opts\<lparr>maxPosts := None\<rparr>)) = Infinity"
  by (simp add: capOf_def)

lemma returnedOrder_Inr [simp]: "returnedOrder (Some (Inr r, net')) = Some (order r)"
  by (simp add: returnedOrder_def)

lemma requestsOf_Some [simp]: "requestsOf (Some (res, net')) = Some (sent net')"
  by (simp add: requestsOf_def)

lemma sent_pagedNet [simp]: "sent (pagedNet rs) = []"
  by (simp add: pagedNet_def)

lemma snd_loopBody:
  "snd (loopBody c channelId options net st) =
     issued net [pageRequest c channelId options (page st)]"
proof (cases "served c net channelId options (page st)")
  case (Inl e)
  then show ?thesis by (simp add: loopBody_throw)
next
  case (Inr r)
  then show ?thesis
    by (cases "order r = []") (simp_all add: loopBody_empty loopBody_merge)
qed

lemma full_pages_from_start:
  assumes "\<forall>j<k. \<exists>p. served c net channelId options j = Inr p \<and> length (order p) = perPage"
    and "lessNum (perPage * k) (capOf options)"
  shows "\<forall>j<k. served c net channelId options (page (initialState :: 'a loop_state) + j)
              = Inr (projr (served c net channelId options j))
            \<and> length (order (projr (served c net channelId options j))) = perPage
            \<and> lessNum (length (allOrder (initialState :: 'a loop_state)) + perPage * (j + 1))
                (capOf options)"
proof (intro allI impI)
  fix j assume j: "j < k"
  with assms(1) obtain p where p: "served c net channelId options j = Inr p"
    "length (order p) = perPage"
    by blast
  from j have "j + 1 \<le> k" by simp
  then have "perPage * (j + 1) \<le> perPage * k" by (rule mult_le_mono2)
  then have "lessNum (perPage * (j + 1)) (capOf options)"
    by (rule lessNum_mono [OF assms(2)])
  then show "served c net channelId options (page (initialState :: 'a loop_state) + j)
              = Inr (projr (served c net channelId options j))
            \<and> length (order (projr (served c net channelId options j))) = perPage
            \<and> lessNum (length (allOrder (initialState :: 'a loop_state)) + perPage * (j + 1))
                (capOf options)"
    using p by simp
qed

lemma concat_full_pages:
  assumes "\<forall>j<k. \<exists>p. served c net channelId options j = Inr p \<and> length (order p) = perPage"
  shows "concat (map order (map (\<lambda>j. projr (served c net channelId options j)) [0..<k]))
         = concat (map (\<lambda>i. pageOrder (served c net channelId options i)) [0..<k])"
    and "length (concat (map (\<lambda>i. pageOrder (served c net channelId options i)) [0..<k]))
         = perPage * k"
proof -
  have "\<forall>j \<in> set [0..<k]. order (projr (served c net channelId options j))
      = pageOrder (served c net channelId options j)
      \<and> length (pageOrder (served c net channelId options j)) = perPage"
  proof
    fix j assume "j \<in> set [0..<k]"
    then have "j < k" by simp
    with assms obtain p where "served c net channelId options j = Inr p"
      "length (order p) = perPage"
      by blast
    then show "order (projr (served c net channelId options j))
      = pageOrder (served c net channelId options j)
      \<and> length (pageOrder (served c net channelId options j)) = perPage"
      by simp
  qed
  then have a: "map (\<lambda>j. order (projr (served c net channelId options j))) [0..<k]
      = map (\<lambda>i. pageOrder (served c net channelId options i)) [0..<k]"
    and b: "\<forall>xs \<in> set (map (\<lambda>i. pageOrder (served c net channelId options i)) [0..<k]).
        length xs = perPage"
    by auto
  show "concat (map order (map (\<lambda>j. projr (served c net channelId options j)) [0..<k]))
         = concat (map (\<lambda>i. pageOrder (served c net channelId options i)) [0..<k])"
    by (simp only: map_map comp_def a)
  have "length (concat xss) = perPage * length xss" if "\<forall>xs \<in> set xss. length xs = perPage"
    for xss :: "string list list"
    using that by (induction xss) simp_all
  from this [OF b]
  show "length (concat (map (\<lambda>i. pageOrder (served c net channelId options i)) [0..<k]))
         = perPage * k"
    by simp
qed

lemma run_from_start_throw:
  assumes "\<forall>j<k. \<exists>p. served c net channelId options j = Inr p \<and> length (order p) = perPage"
    and "lessNum (perPage * k) (capOf options)"
    and "served c net channelId options k = Inl e"
  shows "getAllPostsForChannel c net channelId options =
           Some (Inl e, issued net (map (pageRequest c channelId options) [0..<Suc k]))"
proof -
  have "whileLoop c channelId options net initialState =
         Some (Inl e, issued net (map (pageRequest c channelId options)
            [page (initialState :: 'a loop_state)..<page (initialState :: 'a loop_state) + Suc k]))"
    using assms(2,3)
    by (intro run_throw [OF _ full_pages_from_start [OF assms(1,2)]]) simp_all
  from getAll_Inl [OF this] show ?thesis by simp
qed

lemma run_from_start_last:
  assumes "\<forall>j<k. \<exists>p. served c net channelId options j = Inr p \<and> length (order p) = perPage"
    and "lessNum (perPage * k) (capOf options)"
    and "served c net channelId options k = Inr r"
    and "length (order r) < perPage
         \<or> \<not> lessNum (perPage * k + length (order r)) (capOf options)"
  shows "\<exists>res. getAllPostsForChannel c net channelId options =
           Some (Inr res, issued net (map (pageRequest c channelId options) [0..<Suc k]))
         \<and> order res = slice0 (concat (map (\<lambda>i. pageOrder (served c net channelId options i))
                                     [0..<Suc k])) (capOf options)"
proof (cases "order r = []")
  case True
  have "whileLoop c channelId options net initialState =
         Some (Inr ((foldl merged initialState
                      (map (\<lambda>j. projr (served c net channelId options j)) [0..<k]))
                    \<lparr>hasMore := False\<rparr>),
               issued net (map (pageRequest c channelId options)
            [page (initialState :: 'a loop_state)..<page (initialState :: 'a loop_state) + Suc k]))"
    using assms(2,3) True
    by (intro run_empty [OF _ full_pages_from_start [OF assms(1,2)]]) simp_all
  from getAll_Inr [OF this] show ?thesis
    using True assms(3) concat_full_pages(1) [OF assms(1)]
    by (simp add: allOrder_foldl_merged)
next
  case False
  have "whileLoop c channelId options net initialState =
         Some (Inr (merged (foldl merged initialState
                      (map (\<lambda>j. projr (served c net channelId options j)) [0..<k])) r),
               issued net (map (pageRequest c channelId options)
            [page (initialState :: 'a loop_state)..<page (initialState :: 'a loop_state) + Suc k]))"
    using assms(2,3,4) False
    by (intro run_last [OF _ full_pages_from_start [OF assms(1,2)]]) simp_all
  from getAll_Inr [OF this] show ?thesis
    using assms(3) concat_full_pages(1) [OF assms(1)]
    by (simp add: allOrder_foldl_merged merged_def)
qed

lemma threePages_served:
  "served demoClient threePages ''town-square'' None 0 = Inr (pageOf (idsFrom 0 200))"
  "served demoClient threePages ''town-square'' None 1 = Inr (pageOf (idsFrom 200 200))"
  "served demoClient threePages ''town-square'' None 2 = Inr (pageOf (idsFrom 400 47))"
  by (simp_all add: threePages_def demo_defs)

lemma failingSecondPage_served:
  "served demoClient failingSecondPage ''town-square'' None 0 = Inr (pageOf (idsFrom 0 200))"
  "served demoClient failingSecondPage ''town-square'' None 1
     = Inl (Error ''Failed to get posts: 500 Internal Server Error'')"
  by (simp_all add: failingSecondPage_def demo_defs)

lemma capOf_None [simp]: "capOf None = Infinity"
  by (simp add: capOf_def)

lemma all_less_2: "(\<forall>j<2. P j) = (P 0 \<and> P (Suc 0))"
  by (auto simp add: less_2_cases_iff)

lemma twoPages_served:
  "served demoClient twoPages ''town-square'' None 0 = Inr (pageOf (idsFrom 0 200))"
  "served demoClient twoPages ''town-square'' None 1 = Inr (pageOf (idsFrom 200 47))"
  by (simp_all add: twoPages_def demo_defs)

lemma overlappingPages_served:
  "served demoClient overlappingPages ''town-square'' None 0 = Inr (pageOf (idsFrom 0 200))"
  "served demoClient overlappingPages ''town-square'' None 1 = Inr (pageOf [''0''])"
  by (simp_all add: overlappingPages_def demo_defs)

section \<open>The properties of the specification\<close>

subsection \<open>Claim C1: the cap bounds the result\<close>

text \<open>
  Claim C1 says that the returned order is never longer than a supplied cap. A supplied
  cap of \<open>0\<close> is falsy and is replaced by \<open>Infinity\<close>: on an upstream of one page of three
  ids the run with \<open>maxPosts = 0\<close> returns all three.
\<close>

theorem zero_cap_returns_ids_counterexample:
  "returnedOrder (getAllPostsForChannel demoClient (pagedNet [okResponse (pageOf (idsFrom 0 3))])
       ''town-square'' (capped 0)) = Some (idsFrom 0 3)
   \<and> Option.bind (capped 0) maxPosts = Some 0
   \<and> \<not> int (length (idsFrom 0 3)) \<le> 0"
proof -
  let ?net = "pagedNet [okResponse (pageOf (idsFrom 0 3))]"
  have s: "served demoClient ?net ''town-square'' (capped 0) 0 = Inr (pageOf (idsFrom 0 3))"
    by (simp add: demo_defs)
  have "getAllPostsForChannel demoClient ?net ''town-square'' (capped 0)
     = Some (Inr (pageOf (idsFrom 0 3)),
             issued ?net [pageRequest demoClient ''town-square'' (capped 0) 0])"
    using getAll_single_page [OF s] by (simp add: perPage_def capped_def capOf_def pageOf_def)
  then show ?thesis
    by (simp add: capped_def)
qed

text \<open>
  Claim C1, amended. For every run with a cap \<open>maxPosts = N\<close>, \<open>N\<close> at least \<open>1\<close>: the run
  returns, and a returned result has an order of length at most \<open>N\<close>; if moreover the
  upstream serves a collection \<open>ids\<close> of at least \<open>N\<close> ids in pages of \<open>perPage\<close>, the returned
  order is the first \<open>N\<close> ids of the collection, of length exactly \<open>N\<close>, and the requests
  issued are those of the pages \<open>0\<close> to \<open>(N - 1) div perPage\<close>.
\<close>

theorem cap_bounds_result:
  assumes "1 \<le> N" and "Option.bind options maxPosts = Some N"
  shows "(\<exists>res net'. getAllPostsForChannel c net channelId options = Some (res, net')
            \<and> (\<forall>r. res = Inr r \<longrightarrow> int (length (order r)) \<le> N))
         \<and> (N \<le> int (length ids)
              \<and> (\<forall>i. int (perPage * i) < N \<longrightarrow>
                    (\<exists>r. served c net channelId options i = Inr r
                       \<and> order r = take perPage (drop (perPage * i) ids)))
            \<longrightarrow> (\<exists>r. getAllPostsForChannel c net channelId options =
                      Some (Inr r, issued net (map (pageRequest c channelId options)
                                                 [0..<Suc (nat (N - 1) div perPage)]))
                    \<and> order r = take (nat N) ids \<and> int (length (order r)) = N))"
  using capped_run_bounded [OF assms] capped_run_collects_cap [OF assms]
  by blast

text \<open>A cap of \<open>50\<close> on a first page of \<open>200\<close> ids: one request, exactly \<open>50\<close> ids.\<close>

theorem cap_bounds_result_witness:
  "(1::int) \<le> 50
   \<and> Option.bind (capped 50) maxPosts = Some 50
   \<and> 50 \<le> int (length (idsFrom 0 200))
   \<and> served demoClient (pagedNet [okResponse (pageOf (idsFrom 0 200))]) ''town-square''
        (capped 50) 0 = Inr (pageOf (idsFrom 0 200))
   \<and> order (pageOf (idsFrom 0 200)) = take perPage (drop (perPage * 0) (idsFrom 0 200))
   \<and> returnedOrder (getAllPostsForChannel demoClient
          (pagedNet [okResponse (pageOf (idsFrom 0 200))]) ''town-square'' (capped 50))
       = Some (take 50 (idsFrom 0 200))
   \<and> length (take 50 (idsFrom 0 200)) = 50
   \<and> requestsOf (getAllPostsForChannel demoClient
          (pagedNet [okResponse (pageOf (idsFrom 0 200))]) ''town-square'' (capped 50))
       = Some [pageRequest demoClient ''town-square'' (capped 50) 0]"
proof -
  let ?net = "pagedNet [okResponse (pageOf (idsFrom 0 200))]"
  have c: "Option.bind (capped 50) maxPosts = Some 50"
    by (simp add: capped_def)
  have s: "served demoClient ?net ''town-square'' (capped 50) 0 = Inr (pageOf (idsFrom 0 200))"
    by (simp add: demo_defs)
  have p: "\<forall>i. int (perPage * i) < 50 \<longrightarrow>
      (\<exists>r. served demoClient ?net ''town-square'' (capped 50) i = Inr r
         \<and> order r = take perPage (drop (perPage * i) (idsFrom 0 200)))"
  proof (intro allI impI)
    fix i assume "int (perPage * i) < 50"
    then have "i = 0"
      by (simp add: perPage_def)
    then show "\<exists>r. served demoClient ?net ''town-square'' (capped 50) i = Inr r
         \<and> order r = take perPage (drop (perPage * i) (idsFrom 0 200))"
      using s by (simp add: perPage_def)
  qed
  have "\<exists>r. getAllPostsForChannel demoClient ?net ''town-square'' (capped 50) =
            Some (Inr r, issued ?net (map (pageRequest demoClient ''town-square'' (capped 50))
                                       [0..<Suc (nat (50 - 1) div perPage)]))
          \<and> order r = take (nat 50) (idsFrom 0 200) \<and> int (length (order r)) = 50"
    using cap_bounds_result [of 50 "capped 50" demoClient ?net "''town-square''" "idsFrom 0 200"]
      c p by simp
  then show ?thesis
    using s c by (auto simp add: perPage_def)
qed

subsection \<open>Claim C2: the size of a page decides whether another is requested\<close>

text \<open>
  Claim C2 says that after every page whose order has the per-page size a further request
  is issued. The cap stops the run first: with \<open>maxPosts = 200\<close> the first page has
  \<open>200\<close> ids, the per-page size, and the run ends after this one request.
\<close>

theorem cap_stops_full_page_counterexample:
  "served demoClient (pagedNet [okResponse (pageOf (idsFrom 0 200))]) ''town-square''
       (capped 200) 0 = Inr (pageOf (idsFrom 0 200))
   \<and> length (order (pageOf (idsFrom 0 200))) = perPage
   \<and> requestsOf (getAllPostsForChannel demoClient
          (pagedNet [okResponse (pageOf (idsFrom 0 200))]) ''town-square'' (capped 200))
       = Some [pageRequest demoClient ''town-square'' (capped 200) 0]"
proof -
  let ?net = "pagedNet [okResponse (pageOf (idsFrom 0 200))]"
  have s: "served demoClient ?net ''town-square'' (capped 200) 0 = Inr (pageOf (idsFrom 0 200))"
    by (simp add: demo_defs)
  have "\<exists>res. getAllPostsForChannel demoClient ?net ''town-square'' (capped 200) =
           Some (Inr res, issued ?net (map (pageRequest demoClient ''town-square'' (capped 200))
             [0..<Suc 0]))
         \<and> order res = slice0 (concat (map (\<lambda>i. pageOrder
               (served demoClient ?net ''town-square'' (capped 200) i)) [0..<Suc 0]))
             (capOf (capped 200))"
    using s by (intro run_from_start_last) (simp_all add: capped_def capOf_def perPage_def)
  then show ?thesis
    using s by (auto simp add: perPage_def)
qed

text \<open>
  Claim C2, amended. At every iteration of the loop that fetches a page \<open>r\<close>: if the order
  of \<open>r\<close> has the per-page size and the running total is still below the cap (as it always
  is without a cap), the loop goes on with the next iteration, whose page index is one
  more and whose request is the one for that index; if the order of \<open>r\<close> is shorter than
  the per-page size, empty or not, the loop returns normally with no further request. So a
  run without a cap over \<open>k\<close> full pages and a shorter page \<open>r\<close> issues exactly the \<open>k + 1\<close>
  requests of the pages \<open>0\<close> to \<open>k\<close> and returns the ids of these pages in fetch order,
  \<open>perPage * k + length (order r)\<close> of them.
\<close>

theorem page_size_decides_next_request:
  "(guard options st \<and> served c net channelId options (page st) = Inr r
      \<and> length (order r) = perPage
      \<and> lessNum (length (allOrder st) + perPage) (capOf options) \<longrightarrow>
        whileLoop c channelId options net st =
          whileLoop c channelId options
            (issued net [pageRequest c channelId options (page st)]) (merged st r)
        \<and> guard options (merged st r)
        \<and> page (merged st r) = page st + 1
        \<and> snd (loopBody c channelId options
                 (issued net [pageRequest c channelId options (page st)]) (merged st r))
            = issued net [pageRequest c channelId options (page st),
                          pageRequest c channelId options (page st + 1)])
   \<and> (guard options st \<and> served c net channelId options (page st) = Inr r
      \<and> length (order r) < perPage \<longrightarrow>
        (\<exists>st'. whileLoop c channelId options net st =
            Some (Inr st', issued net [pageRequest c channelId options (page st)])))
   \<and> (capOf options = Infinity
      \<and> (\<forall>j<k. \<exists>p. served c net channelId options j = Inr p \<and> length (order p) = perPage)
      \<and> served c net channelId options k = Inr r \<and> length (order r) < perPage \<longrightarrow>
        (\<exists>res. getAllPostsForChannel c net channelId options =
            Some (Inr res, issued net (map (pageRequest c channelId options) [0..<Suc k]))
          \<and> order res = concat (map (\<lambda>i. pageOrder (served c net channelId options i))
                                  [0..<Suc k])
          \<and> length (order res) = perPage * k + length (order r)))"
proof (intro conjI impI)
  assume a: "guard options st \<and> served c net channelId options (page st) = Inr r
      \<and> length (order r) = perPage
      \<and> lessNum (length (allOrder st) + perPage) (capOf options)"
  then have ne: "order r \<noteq> []"
    by (auto simp add: perPage_def)
  show "whileLoop c channelId options net st =
          whileLoop c channelId options
            (issued net [pageRequest c channelId options (page st)]) (merged st r)"
    using a ne by (intro loop_next) simp_all
  show "guard options (merged st r)"
    using a by (simp add: guard_def merged_def)
  show "page (merged st r) = page st + 1"
    by (simp add: merged_def)
  show "snd (loopBody c channelId options
                 (issued net [pageRequest c channelId options (page st)]) (merged st r))
            = issued net [pageRequest c channelId options (page st),
                          pageRequest c channelId options (page st + 1)]"
    by (simp add: snd_loopBody merged_def)
next
  assume a: "guard options st \<and> served c net channelId options (page st) = Inr r
      \<and> length (order r) < perPage"
  show "\<exists>st'. whileLoop c channelId options net st =
            Some (Inr st', issued net [pageRequest c channelId options (page st)])"
  proof (cases "order r = []")
    case True
    then show ?thesis using a loop_empty [of options st c net channelId r] by simp
  next
    case False
    then show ?thesis using a loop_last [of options st c net channelId r] by simp
  qed
next
  assume a: "capOf options = Infinity
      \<and> (\<forall>j<k. \<exists>p. served c net channelId options j = Inr p \<and> length (order p) = perPage)
      \<and> served c net channelId options k = Inr r \<and> length (order r) < perPage"
  then have full: "\<forall>j<k. \<exists>p. served c net channelId options j = Inr p
      \<and> length (order p) = perPage"
    and cap: "lessNum (perPage * k) (capOf options)"
    and r: "served c net channelId options k = Inr r"
    and short: "length (order r) < perPage
         \<or> \<not> lessNum (perPage * k + length (order r)) (capOf options)"
    by simp_all
  from run_from_start_last [OF full cap r short] obtain res where res:
    "getAllPostsForChannel c net channelId options =
           Some (Inr res, issued net (map (pageRequest c channelId options) [0..<Suc k]))"
    "order res = slice0 (concat (map (\<lambda>i. pageOrder (served c net channelId options i))
                                     [0..<Suc k])) (capOf options)"
    by blast
  have "order res = concat (map (\<lambda>i. pageOrder (served c net channelId options i)) [0..<Suc k])"
    using res(2) a by simp
  moreover have "length (concat (map (\<lambda>i. pageOrder (served c net channelId options i))
      [0..<Suc k])) = perPage * k + length (order r)"
    using concat_full_pages(2) [OF full] r by simp
  ultimately show "\<exists>res. getAllPostsForChannel c net channelId options =
            Some (Inr res, issued net (map (pageRequest c channelId options) [0..<Suc k]))
          \<and> order res = concat (map (\<lambda>i. pageOrder (served c net channelId options i))
                                  [0..<Suc k])
          \<and> length (order res) = perPage * k + length (order r)"
    using res(1) by simp
qed

text \<open>Pages of sizes \<open>200\<close>, \<open>200\<close> and \<open>47\<close>: three requests and \<open>447\<close> ids.\<close>

theorem page_size_decides_next_request_witness:
  "guard None (initialState :: string loop_state)
   \<and> served demoClient threePages ''town-square'' None 0 = Inr (pageOf (idsFrom 0 200))
   \<and> length (order (pageOf (idsFrom 0 200))) = perPage
   \<and> length (order (pageOf (idsFrom 200 200))) = perPage
   \<and> page (merged initialState (pageOf (idsFrom 0 200))) = 1
   \<and> snd (loopBody demoClient ''town-square'' None
            (issued threePages [pageRequest demoClient ''town-square'' None 0])
            (merged initialState (pageOf (idsFrom 0 200))))
       = issued threePages [pageRequest demoClient ''town-square'' None 0,
                            pageRequest demoClient ''town-square'' None 1]
   \<and> served demoClient threePages ''town-square'' None 2 = Inr (pageOf (idsFrom 400 47))
   \<and> length (order (pageOf (idsFrom 400 47))) = 47
   \<and> (\<exists>st'. whileLoop demoClient ''town-square'' None threePages
              \<lparr>allPosts = Map.empty, allOrder = idsFrom 0 400, page = 2, hasMore = True\<rparr>
            = Some (Inr st', issued threePages [pageRequest demoClient ''town-square'' None 2]))
   \<and> requestsOf (getAllPostsForChannel demoClient threePages ''town-square'' None)
       = Some [pageRequest demoClient ''town-square'' None 0,
               pageRequest demoClient ''town-square'' None 1,
               pageRequest demoClient ''town-square'' None 2]
   \<and> returnedOrder (getAllPostsForChannel demoClient threePages ''town-square'' None)
       = Some (idsFrom 0 200 @ idsFrom 200 200 @ idsFrom 400 47)
   \<and> length (idsFrom 0 200 @ idsFrom 200 200 @ idsFrom 400 47) = 447"
proof -
  let ?st2 = "\<lparr>allPosts = Map.empty, allOrder = idsFrom 0 400, page = 2, hasMore = True\<rparr>
    :: string loop_state"
  have g0: "guard None (initialState :: string loop_state)"
    by (simp add: guard_def)
  have g2: "guard None ?st2"
    by (simp add: guard_def)
  note s = threePages_served
  have first: "page (merged initialState (pageOf (idsFrom 0 200))) = 1
      \<and> snd (loopBody demoClient ''town-square'' None
            (issued threePages [pageRequest demoClient ''town-square'' None 0])
            (merged initialState (pageOf (idsFrom 0 200))))
       = issued threePages [pageRequest demoClient ''town-square'' None 0,
                            pageRequest demoClient ''town-square'' None 1]"
    using page_size_decides_next_request [of None "initialState :: string loop_state"
        demoClient threePages "''town-square''" "pageOf (idsFrom 0 200)" 0] g0 s(1)
    by (simp add: perPage_def)
  have u: "[0..<3::nat] = [0, 1, 2]"
    by (simp add: upt_rec)
  have last: "(\<exists>st'. whileLoop demoClient ''town-square'' None threePages ?st2
            = Some (Inr st', issued threePages [pageRequest demoClient ''town-square'' None 2]))
      \<and> (\<exists>res. getAllPostsForChannel demoClient threePages ''town-square'' None =
            Some (Inr res, issued threePages [pageRequest demoClient ''town-square'' None 0,
               pageRequest demoClient ''town-square'' None 1,
               pageRequest demoClient ''town-square'' None 2])
          \<and> order res = idsFrom 0 200 @ idsFrom 200 200 @ idsFrom 400 47)"
    using page_size_decides_next_request [of None ?st2
        demoClient threePages "''town-square''" "pageOf (idsFrom 400 47)" 2] g2 s
    by (auto simp add: perPage_def all_less_2 u)
  have t: "sent threePages = []"
    by (simp add: threePages_def)
  show ?thesis
    using first last g0 s t
    by (auto simp add: perPage_def)
qed

subsection \<open>Claim C3: a failing page aborts the run\<close>

text \<open>
  Claim C3. A failing page fetch aborts the aggregation with the error of that fetch, and
  the result is the error alone, no aggregate: when the pages before page \<open>k\<close> are full and
  below the cap and the fetch of page \<open>k\<close> fails with \<open>e\<close>, the run returns \<open>Inl e\<close> after
  the requests of the pages \<open>0\<close> to \<open>k\<close>; whenever a run returns, a failure \<open>e\<close> of any page it
  has requested is its result; and an iteration whose fetch fails ends the loop with that
  error whatever has been collected in the state.
\<close>

theorem page_failure_aborts_run:
  "(lessNum (perPage * k) (capOf options)
      \<and> (\<forall>j<k. \<exists>p. served c net channelId options j = Inr p \<and> length (order p) = perPage)
      \<and> served c net channelId options k = Inl e \<longrightarrow>
        getAllPostsForChannel c net channelId options =
          Some (Inl e, issued net (map (pageRequest c channelId options) [0..<Suc k])))
   \<and> (getAllPostsForChannel c net channelId options = Some (res, net')
      \<and> i < length (sent net') - length (sent net)
      \<and> served c net channelId options i = Inl e \<longrightarrow> res = Inl e)
   \<and> (guard options st \<and> served c net channelId options (page st) = Inl e \<longrightarrow>
        whileLoop c channelId options net st =
          Some (Inl e, issued net [pageRequest c channelId options (page st)]))"
proof (intro conjI impI)
  assume "lessNum (perPage * k) (capOf options)
      \<and> (\<forall>j<k. \<exists>p. served c net channelId options j = Inr p \<and> length (order p) = perPage)
      \<and> served c net channelId options k = Inl e"
  then show "getAllPostsForChannel c net channelId options =
          Some (Inl e, issued net (map (pageRequest c channelId options) [0..<Suc k]))"
    by (intro run_from_start_throw) simp_all
next
  assume a: "getAllPostsForChannel c net channelId options = Some (res, net')
      \<and> i < length (sent net') - length (sent net)
      \<and> served c net channelId options i = Inl e"
  then have "getAllPostsForChannel c net channelId options = Some (res, net')"
    by simp
  from getAll_run_inv [OF this] obtain n where
    n: "net' = issued net (map (pageRequest c channelId options) [0..<n])"
    and f: "\<forall>i<n. \<forall>e. served c net channelId options i = Inl e \<longrightarrow> res = Inl e"
    by blast
  have "i < n"
    using a n by simp
  then show "res = Inl e"
    using f a by blast
next
  assume "guard options st \<and> served c net channelId options (page st) = Inl e"
  then show "whileLoop c channelId options net st =
          Some (Inl e, issued net [pageRequest c channelId options (page st)])"
    by (simp add: loop_throw)
qed

text \<open>A first page of \<open>200\<close> ids, then \<open>500 Internal Server Error\<close>: the run fails
  and returns no order.\<close>

theorem page_failure_aborts_run_witness:
  "lessNum (perPage * 1) (capOf None)
   \<and> served demoClient failingSecondPage ''town-square'' None 0 = Inr (pageOf (idsFrom 0 200))
   \<and> length (order (pageOf (idsFrom 0 200))) = perPage
   \<and> served demoClient failingSecondPage ''town-square'' None 1
       = Inl (Error ''Failed to get posts: 500 Internal Server Error'')
   \<and> getAllPostsForChannel demoClient failingSecondPage ''town-square'' None
       = Some (Inl (Error ''Failed to get posts: 500 Internal Server Error''),
               issued failingSecondPage [pageRequest demoClient ''town-square'' None 0,
                                         pageRequest demoClient ''town-square'' None 1])
   \<and> returnedOrder (getAllPostsForChannel demoClient failingSecondPage ''town-square'' None)
       = None
   \<and> (1::nat) < length (sent (issued failingSecondPage
                               [pageRequest demoClient ''town-square'' None 0,
                                pageRequest demoClient ''town-square'' None 1]))
                   - length (sent failingSecondPage)
   \<and> guard None (initialState\<lparr>page := 1\<rparr> :: string loop_state)
   \<and> whileLoop demoClient ''town-square'' None failingSecondPage (initialState\<lparr>page := 1\<rparr>)
       = Some (Inl (Error ''Failed to get posts: 500 Internal Server Error''),
               issued failingSecondPage [pageRequest demoClient ''town-square'' None 1])"
proof -
  note s = failingSecondPage_served
  have g: "guard None (initialState\<lparr>page := 1\<rparr> :: string loop_state)"
    by (simp add: guard_def)
  have run: "getAllPostsForChannel demoClient failingSecondPage ''town-square'' None
       = Some (Inl (Error ''Failed to get posts: 500 Internal Server Error''),
               issued failingSecondPage [pageRequest demoClient ''town-square'' None 0,
                                         pageRequest demoClient ''town-square'' None 1])
      \<and> whileLoop demoClient ''town-square'' None failingSecondPage (initialState\<lparr>page := 1\<rparr>)
       = Some (Inl (Error ''Failed to get posts: 500 Internal Server Error''),
               issued failingSecondPage [pageRequest demoClient ''town-square'' None 1])"
    using page_failure_aborts_run [of 1 None demoClient failingSecondPage "''town-square''"
        "Error ''Failed to get posts: 500 Internal Server Error''"
        "Inl (Error ''Failed to get posts: 500 Internal Server Error'')"
        "issued failingSecondPage [pageRequest demoClient ''town-square'' None 0,
                                   pageRequest demoClient ''town-square'' None 1]"
        1 "initialState\<lparr>page := 1\<rparr>"] s g
    by (simp add: perPage_def)
  then show ?thesis
    using s g by (simp add: perPage_def returnedOrder_def)
qed

subsection \<open>Claim C4: two pages are merged\<close>




subsection \<open>Claim C5: a bare array is wrapped\<close>

text \<open>
  Claim C5. When the decoded payload is a bare array, \<open>getChannels\<close> and \<open>getUsers\<close>
  return an envelope whose items field (\<open>channels\<close>, respectively \<open>users\<close>) is the
  payload itself and whose \<open>total_count\<close> is the length of the payload. The first six
  conjuncts are about the normalisation step alone, the last two about the whole methods on
  a successful response.
\<close>

theorem bare_array_is_wrapped:
  "normalizeChannels (JArr xs) =
     JObj [(''channels'', JArr xs), (''total_count'', JNum (int (length xs)))]
   \<and> field ''channels'' (normalizeChannels (JArr xs)) = Some (JArr xs)
   \<and> field ''total_count'' (normalizeChannels (JArr xs)) = Some (JNum (int (length xs)))
   \<and> normalizeUsers (JArr xs) =
     JObj [(''users'', JArr xs), (''total_count'', JNum (int (length xs)))]
   \<and> field ''users'' (normalizeUsers (JArr xs)) = Some (JArr xs)
   \<and> field ''total_count'' (normalizeUsers (JArr xs)) = Some (JNum (int (length xs)))
   \<and> (respond net \<lparr>target = channelsUrl c limit pg, reqHeaders = headers c\<rparr> = Inr resp
        \<and> ok resp \<and> json resp = Inr (JArr xs) \<longrightarrow>
      fst (getChannels c net limit pg) =
        Inr (JObj [(''channels'', JArr xs), (''total_count'', JNum (int (length xs)))]))
   \<and> (respond net \<lparr>target = usersUrl c limit pg, reqHeaders = headers c\<rparr> = Inr resp
        \<and> ok resp \<and> json resp = Inr (JArr xs) \<longrightarrow>
      fst (getUsers c net limit pg) =
        Inr (JObj [(''users'', JArr xs), (''total_count'', JNum (int (length xs)))]))"
  by (simp add: normalizeChannels_def normalizeUsers_def getChannels_def getUsers_def fetch_def)

text \<open>The same on a response that lists two channels.\<close>

theorem bare_array_is_wrapped_witness:
  "respond (channelsNet (okResponse (JArr demoChannels)))
       \<lparr>target = channelsUrl demoClient 100 0, reqHeaders = headers demoClient\<rparr>
     = Inr (okResponse (JArr demoChannels))
   \<and> ok (okResponse (JArr demoChannels))
   \<and> json (okResponse (JArr demoChannels)) = Inr (JArr demoChannels)
   \<and> fst (getChannels demoClient (channelsNet (okResponse (JArr demoChannels))) 100 0) =
        Inr (JObj [(''channels'', JArr demoChannels), (''total_count'', JNum 2)])
   \<and> fst (getUsers demoClient (channelsNet (okResponse (JArr demoChannels))) 100 0) =
        Inr (JObj [(''users'', JArr demoChannels), (''total_count'', JNum 2)])"
  using bare_array_is_wrapped [of demoChannels "channelsNet (okResponse (JArr demoChannels))"
      demoClient 100 0 "okResponse (JArr demoChannels)"]
  by (simp add: channelsNet_def okResponse_def ok_def demoChannels_def)

subsection \<open>Claim C6: an envelope passes through\<close>

text \<open>
  Claim C6. A decoded payload that is not a bare array, in particular an object that is
  already an envelope, is returned unchanged by the normalisation step and by
  \<open>getChannels\<close>; normalising twice is the same as normalising once, whatever the payload.
\<close>

theorem envelope_passes_through:
  "(\<not> isArray raw \<longrightarrow> normalizeChannels raw = raw \<and> normalizeUsers raw = raw)
   \<and> normalizeChannels (normalizeChannels raw) = normalizeChannels raw
   \<and> normalizeUsers (normalizeUsers raw) = normalizeUsers raw
   \<and> (\<not> isArray raw
        \<and> respond net \<lparr>target = channelsUrl c limit pg, reqHeaders = headers c\<rparr> = Inr resp
        \<and> ok resp \<and> json resp = Inr raw \<longrightarrow>
      fst (getChannels c net limit pg) = Inr raw)"
  by (cases raw)
    (simp_all add: normalizeChannels_def normalizeUsers_def getChannels_def fetch_def)

text \<open>An envelope of two channels passes through unchanged.\<close>

theorem envelope_passes_through_witness:
  "\<not> isArray (JObj [(''channels'', JArr demoChannels), (''total_count'', JNum 2)])
   \<and> normalizeChannels (JObj [(''channels'', JArr demoChannels), (''total_count'', JNum 2)])
       = JObj [(''channels'', JArr demoChannels), (''total_count'', JNum 2)]
   \<and> normalizeChannels (normalizeChannels (JArr demoChannels)) = normalizeChannels (JArr demoChannels)
   \<and> fst (getChannels demoClient
        (channelsNet (okResponse (JObj [(''channels'', JArr demoChannels), (''total_count'', JNum 2)])))
        100 0)
       = Inr (JObj [(''channels'', JArr demoChannels), (''total_count'', JNum 2)])"
  using envelope_passes_through
      [of "JObj [(''channels'', JArr demoChannels), (''total_count'', JNum 2)]"
        "channelsNet (okResponse (JObj [(''channels'', JArr demoChannels), (''total_count'', JNum 2)]))"
        demoClient 100 0
        "okResponse (JObj [(''channels'', JArr demoChannels), (''total_count'', JNum 2)])"]
    envelope_passes_through [of "JArr demoChannels"]
  by (simp add: channelsNet_def okResponse_def ok_def)

subsection \<open>Claim C7: what the error of a fetch carries\<close>

text \<open>
  Claim C7 says that the error of every single-page fetch carries the status code, the
  status text and the response body. \<open>getPostsForChannel\<close> does not read the body: on a
  response \<open>500 Internal Server Error\<close> with body \<open>boom\<close> its error message is
  \<open>Failed to get posts: 500 Internal Server Error\<close>, in which the body does not occur.
\<close>

theorem posts_error_omits_body_counterexample:
  "fst (getPostsForChannel demoClient
          (pagedNet [errorResponse 500 ''Internal Server Error'' ''boom''
                       :: string PostsResponse response])
          ''town-square'' 30 0 None)
     = Inl (Error ''Failed to get posts: 500 Internal Server Error'')
   \<and> bodyText (errorResponse 500 ''Internal Server Error'' ''boom''
                  :: string PostsResponse response) = ''boom''
   \<and> \<not> carries (Error ''Failed to get posts: 500 Internal Server Error'') ''boom''"
proof -
  have "\<not> sublist ''boom'' ''Failed to get posts: 500 Internal Server Error''"
    by code_simp
  then show ?thesis
    by (simp add: demo_defs carries_def)
qed

text \<open>
  Claim C7, amended. On a response whose status is not a success, \<open>getPostsForChannel\<close>
  fails with an error whose message carries the status code and the status text, and that
  error is the same whatever the body of the response is; \<open>getChannels\<close> fails with an
  error whose message carries the status code, the status text and the body.
\<close>

theorem fetch_error_carries_status:
  "(respond net \<lparr>target = postsUrl c channelId limit pg options, reqHeaders = headers c\<rparr>
        = Inr resp \<and> \<not> ok resp \<longrightarrow>
      (\<exists>e. fst (getPostsForChannel c net channelId limit pg options) = Inl e
         \<and> carries e (toString (int (status resp))) \<and> carries e (statusText resp)))
   \<and> (respond net \<lparr>target = postsUrl c channelId limit pg options, reqHeaders = headers c\<rparr>
        = Inr resp \<and> \<not> ok resp
      \<and> respond net2 \<lparr>target = postsUrl c channelId limit pg options, reqHeaders = headers c\<rparr>
        = Inr (resp\<lparr>bodyText := body2\<rparr>) \<longrightarrow>
      fst (getPostsForChannel c net2 channelId limit pg options)
        = fst (getPostsForChannel c net channelId limit pg options))
   \<and> (respond cnet \<lparr>target = channelsUrl c limit pg, reqHeaders = headers c\<rparr> = Inr cresp
        \<and> \<not> ok cresp \<longrightarrow>
      (\<exists>e. fst (getChannels c cnet limit pg) = Inl e
         \<and> carries e (toString (int (status cresp))) \<and> carries e (statusText cresp)
         \<and> carries e (bodyText cresp)))"
proof (intro conjI impI)
  assume "respond net \<lparr>target = postsUrl c channelId limit pg options, reqHeaders = headers c\<rparr>
        = Inr resp \<and> \<not> ok resp"
  then have "fst (getPostsForChannel c net channelId limit pg options)
      = Inl (Error (''Failed to get posts: '' @ toString (int (status resp)) @ '' ''
                      @ statusText resp))"
    by (simp add: getPostsForChannel_def fetch_def)
  moreover have "sublist (toString (int (status resp)))
      (''Failed to get posts: '' @ toString (int (status resp)) @ ('' '' @ statusText resp))"
    by (rule sublist_appendI)
  moreover have "sublist (statusText resp)
      ((''Failed to get posts: '' @ toString (int (status resp)) @ '' '') @ statusText resp)"
    by (rule sublist_append_leftI)
  ultimately show "\<exists>e. fst (getPostsForChannel c net channelId limit pg options) = Inl e
         \<and> carries e (toString (int (status resp))) \<and> carries e (statusText resp)"
    by (simp add: carries_def)
next
  assume "respond net \<lparr>target = postsUrl c channelId limit pg options, reqHeaders = headers c\<rparr>
        = Inr resp \<and> \<not> ok resp
      \<and> respond net2 \<lparr>target = postsUrl c channelId limit pg options, reqHeaders = headers c\<rparr>
        = Inr (resp\<lparr>bodyText := body2\<rparr>)"
  then show "fst (getPostsForChannel c net2 channelId limit pg options)
        = fst (getPostsForChannel c net channelId limit pg options)"
    by (simp add: getPostsForChannel_def fetch_def ok_def)
next
  assume "respond cnet \<lparr>target = channelsUrl c limit pg, reqHeaders = headers c\<rparr> = Inr cresp
        \<and> \<not> ok cresp"
  then have "fst (getChannels c cnet limit pg)
      = Inl (Error (''Failed to get channels: '' @ toString (int (status cresp)) @ '' ''
                      @ statusText cresp @ '' - '' @ bodyText cresp))"
    by (simp add: getChannels_def fetch_def)
  moreover have "sublist (toString (int (status cresp)))
      (''Failed to get channels: '' @ toString (int (status cresp))
         @ ('' '' @ statusText cresp @ '' - '' @ bodyText cresp))"
    by (rule sublist_appendI)
  moreover have "sublist (statusText cresp)
      ((''Failed to get channels: '' @ toString (int (status cresp)) @ '' '') @ statusText cresp
         @ ('' - '' @ bodyText cresp))"
    by (rule sublist_appendI)
  moreover have "sublist (bodyText cresp)
      ((''Failed to get channels: '' @ toString (int (status cresp)) @ '' '' @ statusText cresp
         @ '' - '') @ bodyText cresp)"
    by (rule sublist_append_leftI)
  ultimately show "\<exists>e. fst (getChannels c cnet limit pg) = Inl e
         \<and> carries e (toString (int (status cresp))) \<and> carries e (statusText cresp)
         \<and> carries e (bodyText cresp)"
    by (simp add: carries_def)
qed

text \<open>A \<open>404\<close> from the posts endpoint and a \<open>403\<close> from the channels endpoint.\<close>

theorem fetch_error_carries_status_witness:
  "respond (pagedNet [errorResponse 404 ''Not Found'' ''no such channel''
                        :: string PostsResponse response])
      \<lparr>target = postsUrl demoClient ''town-square'' 30 0 None, reqHeaders = headers demoClient\<rparr>
     = Inr (errorResponse 404 ''Not Found'' ''no such channel'')
   \<and> \<not> ok (errorResponse 404 ''Not Found'' ''no such channel''
               :: string PostsResponse response)
   \<and> fst (getPostsForChannel demoClient
            (pagedNet [errorResponse 404 ''Not Found'' ''no such channel''
                         :: string PostsResponse response]) ''town-square'' 30 0 None)
       = Inl (Error ''Failed to get posts: 404 Not Found'')
   \<and> carries (Error ''Failed to get posts: 404 Not Found'') ''404''
   \<and> carries (Error ''Failed to get posts: 404 Not Found'') ''Not Found''
   \<and> fst (getPostsForChannel demoClient
            (pagedNet [errorResponse 404 ''Not Found'' ''try again''
                         :: string PostsResponse response]) ''town-square'' 30 0 None)
       = Inl (Error ''Failed to get posts: 404 Not Found'')
   \<and> \<not> ok (errorResponse 403 ''Forbidden'' ''token expired'' :: json response)
   \<and> fst (getChannels demoClient
            (channelsNet (errorResponse 403 ''Forbidden'' ''token expired'')) 100 0)
       = Inl (Error ''Failed to get channels: 403 Forbidden - token expired'')
   \<and> carries (Error ''Failed to get channels: 403 Forbidden - token expired'') ''403''
   \<and> carries (Error ''Failed to get channels: 403 Forbidden - token expired'') ''Forbidden''
   \<and> carries (Error ''Failed to get channels: 403 Forbidden - token expired'') ''token expired''"
  using fetch_error_carries_status
    [of "pagedNet [errorResponse 404 ''Not Found'' ''no such channel'']"
      demoClient "''town-square''" 30 0 None
      "errorResponse 404 ''Not Found'' ''no such channel'' :: string PostsResponse response"
      "pagedNet [errorResponse 404 ''Not Found'' ''try again'']" "''try again''"
      "channelsNet (errorResponse 403 ''Forbidden'' ''token expired'')"
      "errorResponse 403 ''Forbidden'' ''token expired''"]
  by (simp add: demo_defs channelsNet_def getChannels_def channelsUrl_def)

subsection \<open>Claim C8: duplicate ids in the returned order\<close>

text \<open>
  Claim C8 says that the returned order has no duplicate id, also when the ids of the
  pages overlap. The loop appends every page's order as it comes: when the second page
  repeats the id \<open>0\<close> of the first, the returned order holds it twice.
\<close>

theorem overlapping_pages_repeat_ids_counterexample:
  "served demoClient overlappingPages ''town-square'' None 0 = Inr (pageOf (idsFrom 0 200))
   \<and> served demoClient overlappingPages ''town-square'' None 1 = Inr (pageOf [''0''])
   \<and> returnedOrder (getAllPostsForChannel demoClient overlappingPages ''town-square'' None)
       = Some (idsFrom 0 200 @ [''0''])
   \<and> \<not> distinct (idsFrom 0 200 @ [''0''])"
proof -
  note s = overlappingPages_served
  have "\<exists>res. getAllPostsForChannel demoClient overlappingPages ''town-square'' None =
           Some (Inr res, issued overlappingPages
             (map (pageRequest demoClient ''town-square'' None) [0..<Suc 1]))
         \<and> order res = slice0 (concat (map (\<lambda>i. pageOrder
               (served demoClient overlappingPages ''town-square'' None i)) [0..<Suc 1]))
             (capOf None)"
    using s by (intro run_from_start_last [where r = "pageOf [''0'']"])
      (simp_all add: perPage_def)
  then have r: "returnedOrder (getAllPostsForChannel demoClient overlappingPages
      ''town-square'' None) = Some (idsFrom 0 200 @ [''0''])"
    using s by (auto simp add: upt_rec)
  have "(\<lambda>i. toString (int i)) 0 \<in> (\<lambda>i. toString (int i)) ` {0..<0 + 200}"
    by (rule imageI) simp
  then have "toString 0 \<in> set (idsFrom 0 200)"
    by (simp add: idsFrom_def)
  then have "''0'' \<in> set (idsFrom 0 200)"
    by (simp add: toString_def showNat.simps digit_def)
  then have "\<not> distinct (idsFrom 0 200 @ [''0''])"
    by simp
  then show ?thesis
    using s r by simp
qed

text \<open>
  Claim C8, amended. The order that a run returns is the concatenation, in fetch order, of
  the orders of the pages it has requested, cut at the cap. When these orders have no
  duplicate id each and are pairwise disjoint, the returned order has no duplicate id.
\<close>

theorem disjoint_pages_give_distinct_order:
  "(getAllPostsForChannel c net channelId options = Some (Inr r, net') \<longrightarrow>
      order r = slice0 (concat (map (\<lambda>i. pageOrder (served c net channelId options i))
                                  [0..<length (sent net') - length (sent net)]))
                  (capOf options))
   \<and> (getAllPostsForChannel c net channelId options = Some (Inr r, net')
      \<and> (\<forall>i. i < length (sent net') - length (sent net) \<longrightarrow>
            distinct (pageOrder (served c net channelId options i)))
      \<and> (\<forall>i j. i < j \<and> j < length (sent net') - length (sent net) \<longrightarrow>
            set (pageOrder (served c net channelId options i))
              \<inter> set (pageOrder (served c net channelId options j)) = {})
      \<longrightarrow> distinct (order r))"
proof -
  have run: "order r = slice0 (concat (map (\<lambda>i. pageOrder (served c net channelId options i))
                                  [0..<length (sent net') - length (sent net)]))
                  (capOf options)"
    if "getAllPostsForChannel c net channelId options = Some (Inr r, net')"
  proof -
    from getAll_run_inv [OF that] obtain n where
      n: "net' = issued net (map (pageRequest c channelId options) [0..<n])"
      and o: "order r = slice0 (concat (map (\<lambda>i. pageOrder (served c net channelId options i))
                               [0..<n])) (capOf options)"
      by blast
    have "length (sent net') - length (sent net) = n"
      using n by simp
    then show ?thesis
      using o by simp
  qed
  have "distinct (order r)"
    if a: "getAllPostsForChannel c net channelId options = Some (Inr r, net')
      \<and> (\<forall>i. i < length (sent net') - length (sent net) \<longrightarrow>
            distinct (pageOrder (served c net channelId options i)))
      \<and> (\<forall>i j. i < j \<and> j < length (sent net') - length (sent net) \<longrightarrow>
            set (pageOrder (served c net channelId options i))
              \<inter> set (pageOrder (served c net channelId options j)) = {})"
  proof -
    define n where "n = length (sent net') - length (sent net)"
    have o: "order r = slice0 (concat (map (\<lambda>i. pageOrder (served c net channelId options i))
                               [0..<n])) (capOf options)"
      using run a by (simp add: n_def)
    have d: "\<forall>i<n. distinct (pageOrder (served c net channelId options i))"
      using a by (simp add: n_def)
    have dj: "set (pageOrder (served c net channelId options i))
              \<inter> set (pageOrder (served c net channelId options j)) = {}"
      if "i < j" "j < n" for i j
      using a that by (simp add: n_def)
    have "\<forall>i<n. \<forall>j<n. i \<noteq> j \<longrightarrow> set (pageOrder (served c net channelId options i))
              \<inter> set (pageOrder (served c net channelId options j)) = {}"
    proof (intro allI impI)
      fix i j assume "i < n" "j < n" "i \<noteq> j"
      then consider "i < j" | "j < i" by linarith
      then show "set (pageOrder (served c net channelId options i))
              \<inter> set (pageOrder (served c net channelId options j)) = {}"
      proof cases
        case 1
        then show ?thesis using dj \<open>j < n\<close> by simp
      next
        case 2
        then show ?thesis using dj [of j i] \<open>i < n\<close> by (simp add: Int_commute)
      qed
    qed
    from distinct_concat_upt [OF d this] show "distinct (order r)"
      unfolding o by (rule distinct_slice0)
  qed
  with run show ?thesis
    by blast
qed

text \<open>Two disjoint pages, of \<open>200\<close> and of \<open>47\<close> ids.\<close>

theorem disjoint_pages_give_distinct_order_witness:
  "distinct (pageOrder (served demoClient twoPages ''town-square'' None 0))
   \<and> distinct (pageOrder (served demoClient twoPages ''town-square'' None 1))
   \<and> set (pageOrder (served demoClient twoPages ''town-square'' None 0))
       \<inter> set (pageOrder (served demoClient twoPages ''town-square'' None 1)) = {}
   \<and> requestsOf (getAllPostsForChannel demoClient twoPages ''town-square'' None)
       = Some [pageRequest demoClient ''town-square'' None 0,
               pageRequest demoClient ''town-square'' None 1]
   \<and> returnedOrder (getAllPostsForChannel demoClient twoPages ''town-square'' None)
       = Some (idsFrom 0 200 @ idsFrom 200 47)
   \<and> distinct (idsFrom 0 200 @ idsFrom 200 47)"
proof -
  note s = twoPages_served
  have "\<exists>res. getAllPostsForChannel demoClient twoPages ''town-square'' None =
           Some (Inr res, issued twoPages
             (map (pageRequest demoClient ''town-square'' None) [0..<Suc 1]))
         \<and> order res = slice0 (concat (map (\<lambda>i. pageOrder
               (served demoClient twoPages ''town-square'' None i)) [0..<Suc 1]))
             (capOf None)"
    using s by (intro run_from_start_last [where r = "pageOf (idsFrom 200 47)"])
      (simp_all add: perPage_def)
  then obtain res where res:
    "getAllPostsForChannel demoClient twoPages ''town-square'' None =
       Some (Inr res, issued twoPages [pageRequest demoClient ''town-square'' None 0,
                                       pageRequest demoClient ''town-square'' None 1])"
    "order res = idsFrom 0 200 @ idsFrom 200 47"
    using s by (auto simp add: upt_rec)
  have t: "sent twoPages = []"
    by (simp add: twoPages_def)
  have dj: "set (idsFrom 0 200) \<inter> set (idsFrom 200 47) = {}"
    by (simp add: idsFrom_disjoint)
  have hyp: "(\<forall>i. i < 2 \<longrightarrow> distinct (pageOrder (served demoClient twoPages ''town-square'' None i)))
      \<and> (\<forall>i j. i < j \<and> j < 2 \<longrightarrow>
          set (pageOrder (served demoClient twoPages ''town-square'' None i))
            \<inter> set (pageOrder (served demoClient twoPages ''town-square'' None j)) = {})"
    using s dj by (auto simp add: less_2_cases_iff)
  have "distinct (order res)"
    using disjoint_pages_give_distinct_order [of demoClient twoPages "''town-square''" None res
        "issued twoPages [pageRequest demoClient ''town-square'' None 0,
                          pageRequest demoClient ''town-square'' None 1]"] res(1) hyp
    by (simp add: t)
  then show ?thesis
    using res s dj t by simp
qed

subsection \<open>Claim C9: a cap of zero is no cap\<close>



subsection \<open>Claim C10: falsy filters are omitted\<close>

text \<open>
  Claim C10. A filter whose value is falsy, a \<open>since\<close> of \<open>0\<close> or an empty \<open>before\<close> or
  \<open>after\<close>, is not appended to the query: the URL has no such parameter, and both the URL
  and the whole result of \<open>getPostsForChannel\<close> are those of a call in which that filter
  is absent.
\<close>

theorem falsy_filter_is_omitted:
  "postsUrl c channelId limit pg (Some (f\<lparr>since := Some 0\<rparr>))
     = postsUrl c channelId limit pg (Some (f\<lparr>since := None\<rparr>))
   \<and> postsUrl c channelId limit pg (Some (f\<lparr>before := Some ''''\<rparr>))
     = postsUrl c channelId limit pg (Some (f\<lparr>before := None\<rparr>))
   \<and> postsUrl c channelId limit pg (Some (f\<lparr>after := Some ''''\<rparr>))
     = postsUrl c channelId limit pg (Some (f\<lparr>after := None\<rparr>))
   \<and> ''since'' \<notin> fst ` set (searchParams
         (postsUrl c channelId limit pg (Some (f\<lparr>since := Some 0\<rparr>))))
   \<and> ''before'' \<notin> fst ` set (searchParams
         (postsUrl c channelId limit pg (Some (f\<lparr>before := Some ''''\<rparr>))))
   \<and> ''after'' \<notin> fst ` set (searchParams
         (postsUrl c channelId limit pg (Some (f\<lparr>after := Some ''''\<rparr>))))
   \<and> getPostsForChannel c net channelId limit pg (Some (f\<lparr>since := Some 0\<rparr>))
     = getPostsForChannel c net channelId limit pg (Some (f\<lparr>since := None\<rparr>))
   \<and> getPostsForChannel c net channelId limit pg (Some (f\<lparr>before := Some ''''\<rparr>))
     = getPostsForChannel c net channelId limit pg (Some (f\<lparr>before := None\<rparr>))
   \<and> getPostsForChannel c net channelId limit pg (Some (f\<lparr>after := Some ''''\<rparr>))
     = getPostsForChannel c net channelId limit pg (Some (f\<lparr>after := None\<rparr>))"
  by (simp add: getPostsForChannel_def postsUrl_def newURL_def appendParam_def Let_def image_Un)

text \<open>A \<open>since\<close> of \<open>0\<close> beside a \<open>before\<close> that is set: the query has the page, the
  per-page size and \<open>before\<close>, and no \<open>since\<close>.\<close>

theorem falsy_filter_is_omitted_witness:
  "postsUrl demoClient ''town-square'' 30 0
       (Some \<lparr>since = Some 0, before = Some ''p1'', after = None\<rparr>)
     = postsUrl demoClient ''town-square'' 30 0
       (Some \<lparr>since = None, before = Some ''p1'', after = None\<rparr>)
   \<and> searchParams (postsUrl demoClient ''town-square'' 30 0
       (Some \<lparr>since = Some 0, before = Some ''p1'', after = None\<rparr>))
     = [(''page'', ''0''), (''per_page'', ''30''), (''before'', ''p1'')]
   \<and> ''since'' \<notin> fst ` set (searchParams (postsUrl demoClient ''town-square'' 30 0
       (Some \<lparr>since = Some 0, before = Some ''p1'', after = None\<rparr>)))"
  using falsy_filter_is_omitted [of demoClient "''town-square''" 30 0
      "\<lparr>since = None, before = Some ''p1'', after = None\<rparr>"]
  by (simp add: postsUrl_def newURL_def appendParam_def toString_def showNat.simps digit_def)

end
